theory Spec2Isabelle
  imports Complex_Main
begin

section \<open>Data model\<close>

text \<open>
  The two feature modules \<^verbatim>\<open>features/role_members.py\<close> and
  \<^verbatim>\<open>features/subscriptions.py\<close> share one request handler shape: a TTL cache,
  a table of per-key \<^verbatim>\<open>asyncio.Lock\<close> objects and a member scan bounded by
  \<^verbatim>\<open>asyncio.wait_for\<close>. They differ in the key, in the body of the scan loop
  and in the payload assembled after the scan. The handler is embedded once, over a
  record of these three feature-specific parts, and instantiated for both modules.

  JSON payloads are values of \<open>json\<close>; a Python \<^verbatim>\<open>dict\<close> literal is a
  \<open>JDict\<close> of its items in source order.
\<close>

datatype json =
    JStr string
  | JInt int
  | JList "json list"
  | JDict "(string \<times> json) list"

text \<open>A \<^verbatim>\<open>discord.Member\<close> as far as the scans read it: \<open>member_roles\<close> holds the
  ids of \<^verbatim>\<open>member.roles\<close>, \<open>premium_since\<close> the ISO format of the timestamp
  (\<open>None\<close> when the member does not boost).\<close>

record member =
  member_id :: int
  member_name :: string
  display_name :: string
  member_roles :: "int list"
  premium_since :: "string option"

text \<open>A \<^verbatim>\<open>discord.Guild\<close>: \<open>get_role\<close> is the lookup in the bot's local role cache.\<close>

record guild =
  guild_ident :: int
  guild_name :: string
  get_role :: "int \<Rightarrow> string option"

text \<open>
  The bot as the handlers use it. Guild objects live in a store and are changed in place
  by the gateway, so a handler that holds a guild across an \<^verbatim>\<open>await\<close> holds a
  reference. \<open>get_guild\<close> is \<^verbatim>\<open>bot.get_guild\<close>: \<open>None\<close> when the guild is unknown
  or not accessible.
\<close>

type_synonym ref = nat

record bot =
  get_guild :: "int \<Rightarrow> ref option"
  guild_obj :: "ref \<Rightarrow> guild"

text \<open>\<^verbatim>\<open>CacheEntry\<close> (a dataclass, always truthy). Timestamps are readings of
  \<^verbatim>\<open>time.time()\<close>, modelled as real numbers.\<close>

record cache_entry =
  ts :: real
  payload :: json

subsection \<open>Python's \<^verbatim>\<open>str\<close> on integers\<close>

definition digit_char :: "nat \<Rightarrow> char" where
  "digit_char d = ''0123456789'' ! d"

fun str_nat :: "nat \<Rightarrow> string" where
  "str_nat n = (if n < 10 then [digit_char n] else str_nat (n div 10) @ [digit_char (n mod 10)])"

declare str_nat.simps [simp del]

definition str_int :: "int \<Rightarrow> string" where
  "str_int i = (if i < 0 then CHR ''-'' # str_nat (nat (- i)) else str_nat (nat i))"

section \<open>The two features\<close>

text \<open>
  The feature-specific parts of a module: the guild id inside the cache key, the body
  of the \<^verbatim>\<open>async for\<close> loop of \<^verbatim>\<open>_scan\<close> (it extends the list of matches), the
  payload built after the scan, and the body of the 202 response.
\<close>

record ('k, 'a) feature =
  guild_id_of :: "'k \<Rightarrow> int"
  scan_item :: "'k \<Rightarrow> member \<Rightarrow> 'a list \<Rightarrow> 'a list"
  assemble :: "'k \<Rightarrow> guild \<Rightarrow> 'a list \<Rightarrow> json"
  building_body :: "'k \<Rightarrow> json"

subsection \<open>\<^verbatim>\<open>RoleMembersFeature\<close>: key \<open>(guild_id, role_id)\<close>\<close>

definition rm_scan_item :: "int \<times> int \<Rightarrow> member \<Rightarrow> string list \<Rightarrow> string list" where
  "rm_scan_item key m member_ids =
     (if snd key \<in> set (member_roles m) then member_ids @ [str_int (member_id m)]
      else member_ids)"

definition rm_assemble :: "int \<times> int \<Rightarrow> guild \<Rightarrow> string list \<Rightarrow> json" where
  "rm_assemble key g member_ids =
     (let role_id = snd key;
          role_name = (case get_role g role_id of None \<Rightarrow> ''unknown'' | Some name \<Rightarrow> name)
      in JDict
          [(''guild_id'', JStr (str_int (guild_ident g))),
           (''guild_name'', JStr (guild_name g)),
           (''role_id'', JStr (str_int role_id)),
           (''role_name'', JStr role_name),
           (''count'', JInt (int (length member_ids))),
           (''members'', JList (map (\<lambda>mid. JDict [(''discord_user_id'', JStr mid)]) member_ids))])"

definition rm_building_body :: "int \<times> int \<Rightarrow> json" where
  "rm_building_body key =
     JDict [(''status'', JStr ''building_cache''),
            (''guild_id'', JStr (str_int (fst key))),
            (''role_id'', JStr (str_int (snd key)))]"

definition role_members :: "(int \<times> int, string) feature" where
  "role_members =
     \<lparr>guild_id_of = fst, scan_item = rm_scan_item, assemble = rm_assemble,
      building_body = rm_building_body\<rparr>"

subsection \<open>\<^verbatim>\<open>SubscriptionFeature\<close>: key \<open>guild_id\<close>\<close>

definition sub_scan_item :: "int \<Rightarrow> member \<Rightarrow> json list \<Rightarrow> json list" where
  "sub_scan_item key m boosters =
     (case premium_since m of
        None \<Rightarrow> boosters
      | Some since \<Rightarrow>
          boosters @
            [JDict [(''discord_user_id'', JStr (str_int (member_id m))),
                    (''username'', JStr (member_name m)),
                    (''display_name'', JStr (display_name m)),
                    (''premium_since'', JStr since)]])"

definition sub_assemble :: "int \<Rightarrow> guild \<Rightarrow> json list \<Rightarrow> json" where
  "sub_assemble key g boosters =
     JDict
       [(''guild_id'', JStr (str_int (guild_ident g))),
        (''guild_name'', JStr (guild_name g)),
        (''count'', JInt (int (length boosters))),
        (''boosters'', JList boosters)]"

definition sub_building_body :: "int \<Rightarrow> json" where
  "sub_building_body key =
     JDict [(''status'', JStr ''building_cache''), (''guild_id'', JStr (str_int key))]"

definition subscriptions :: "(int, json) feature" where
  "subscriptions =
     \<lparr>guild_id_of = (\<lambda>guild_id. guild_id), scan_item = sub_scan_item,
      assemble = sub_assemble, building_body = sub_building_body\<rparr>"

section \<open>State\<close>

text \<open>What a handler answers: \<^verbatim>\<open>web.json_response\<close> (200), the raised
  \<^verbatim>\<open>HTTPAccepted\<close> (202) and \<^verbatim>\<open>HTTPNotFound\<close> (404), and the 500 that aiohttp
  sends when an exception of the upstream scan leaves the handler.\<close>

datatype response =
    JsonResponse json
  | HTTPAccepted json
  | HTTPNotFound json
  | ServerError

text \<open>The effects a request has on the lock of a key, and the call of
  \<^verbatim>\<open>_build_payload\<close>, logged in the order they happen.\<close>

datatype 'k effect = Acquire 'k | Release 'k | Build 'k

text \<open>
  A coroutine suspended inside \<^verbatim>\<open>await asyncio.wait_for(_scan(), ...)\<close>: its key, the
  guild it resolved, the matches collected so far and the time at which the wait
  started (the deadline is \<open>build_timeout_seconds\<close> later).
\<close>

record ('k, 'a) scan =
  scan_key :: 'k
  scan_guild :: ref
  scan_acc :: "'a list"
  scan_started :: real

text \<open>
  One feature instance together with the event loop that runs its handlers:
  the attributes set by \<^verbatim>\<open>__init__\<close> (\<open>bot_of\<close>, \<open>cache_seconds\<close>, \<open>build_timeout_seconds\<close>,
  \<open>cache\<close>, \<open>locks\<close>), the clock, the suspended handlers (by request number) and the log
  of responses and effects. In \<open>locks\<close>, \<open>None\<close> is a key without a Lock object yet and
  \<open>Some b\<close> a Lock object whose \<^verbatim>\<open>locked()\<close> is \<open>b\<close>.
\<close>

record ('k, 'a) state =
  bot_of :: bot
  cache_seconds :: int
  build_timeout_seconds :: int
  cache :: "'k \<Rightarrow> cache_entry option"
  locks :: "'k \<Rightarrow> bool option"
  clock :: real
  next_rid :: nat
  inflight :: "(nat \<times> ('k, 'a) scan) list"
  responses :: "(nat \<times> response) list"
  trace :: "(nat \<times> 'k effect) list"

text \<open>\<^verbatim>\<open>__init__\<close> (\<^verbatim>\<open>role_members.py\<close> 28-41, \<^verbatim>\<open>subscriptions.py\<close> 27-40): both
  settings are floored; cache and lock table start empty. \<open>t0\<close> is the time at which the
  instance is made.\<close>

definition init :: "bot \<Rightarrow> int \<Rightarrow> int \<Rightarrow> real \<Rightarrow> ('k, 'a) state" where
  "init b cache_seconds_arg build_timeout_seconds_arg t0 =
     \<lparr>bot_of = b,
      cache_seconds = max 10 cache_seconds_arg,
      build_timeout_seconds = max 5 build_timeout_seconds_arg,
      cache = (\<lambda>_. None),
      locks = (\<lambda>_. None),
      clock = t0,
      next_rid = 0,
      inflight = [],
      responses = [],
      trace = []\<rparr>"

section \<open>The request handler\<close>

text \<open>
  asyncio runs handlers cooperatively: a handler runs without interruption up to its
  next suspending \<^verbatim>\<open>await\<close>. An atomic stretch is one function from state to state
  here, taking no time, so every \<^verbatim>\<open>time.time()\<close> inside it reads \<open>clock\<close>.
  The handlers suspend in one place only, the scan inside \<^verbatim>\<open>asyncio.wait_for\<close>:
  \<^verbatim>\<open>async with lock\<close> awaits \<^verbatim>\<open>lock.acquire()\<close>, which returns at once on a lock
  that is not held, and the handler has just seen \<^verbatim>\<open>lock.locked()\<close> false.
  Authentication and the parsing of the query string come before the cache key
  exists and are left out: a request is given by its key. The event loop numbers the
  requests; \<open>rid\<close> is the number of the request a function works for.
\<close>

text \<open>\<^verbatim>\<open>_cache_valid\<close>, \<^verbatim>\<open>_get_lock\<close>, \<^verbatim>\<open>lock.locked()\<close>, and the entry and exit of
  \<^verbatim>\<open>async with lock\<close>, which are logged.\<close>

definition cache_valid :: "('k, 'a) state \<Rightarrow> cache_entry \<Rightarrow> bool" where
  "cache_valid s entry = (clock s - ts entry < real_of_int (cache_seconds s))"

definition get_lock :: "'k \<Rightarrow> ('k, 'a) state \<Rightarrow> ('k, 'a) state" where
  "get_lock key s =
     (case locks s key of
        None \<Rightarrow> s\<lparr>locks := (locks s)(key := Some False)\<rparr>
      | Some _ \<Rightarrow> s)"

definition locked :: "'k \<Rightarrow> ('k, 'a) state \<Rightarrow> bool" where
  "locked key s = (locks s key = Some True)"

definition emit :: "nat \<Rightarrow> 'k effect \<Rightarrow> ('k, 'a) state \<Rightarrow> ('k, 'a) state" where
  "emit rid e s = s\<lparr>trace := trace s @ [(rid, e)]\<rparr>"

definition acquire :: "nat \<Rightarrow> 'k \<Rightarrow> ('k, 'a) state \<Rightarrow> ('k, 'a) state" where
  "acquire rid key s = emit rid (Acquire key) (s\<lparr>locks := (locks s)(key := Some True)\<rparr>)"

definition release :: "nat \<Rightarrow> 'k \<Rightarrow> ('k, 'a) state \<Rightarrow> ('k, 'a) state" where
  "release rid key s = emit rid (Release key) (s\<lparr>locks := (locks s)(key := Some False)\<rparr>)"

definition respond :: "nat \<Rightarrow> response \<Rightarrow> ('k, 'a) state \<Rightarrow> ('k, 'a) state" where
  "respond rid r s = s\<lparr>responses := responses s @ [(rid, r)]\<rparr>"

definition not_found_body :: json where
  "not_found_body = JDict [(''error'', JStr ''guild_not_found_or_no_access'')]"

text \<open>\<^verbatim>\<open>_build_payload\<close> up to its \<^verbatim>\<open>await\<close> (\<^verbatim>\<open>role_members.py\<close> 61-83,
  \<^verbatim>\<open>subscriptions.py\<close> 60-83): the guild is resolved; a missing guild raises
  \<^verbatim>\<open>HTTPNotFound\<close> (\<open>Inl\<close>), otherwise the scan starts with no matches.\<close>

definition build_payload_begin ::
  "('k, 'a) feature \<Rightarrow> 'k \<Rightarrow> ('k, 'a) state \<Rightarrow> response + ('k, 'a) scan" where
  "build_payload_begin F key s =
     (case get_guild (bot_of s) (guild_id_of F key) of
        None \<Rightarrow> Inl (HTTPNotFound not_found_body)
      | Some g \<Rightarrow> Inr \<lparr>scan_key = key, scan_guild = g, scan_acc = [], scan_started = clock s\<rparr>)"

text \<open>The call \<^verbatim>\<open>payload = await self._build_payload(...)\<close> inside the
  \<^verbatim>\<open>async with\<close> block: an exception leaves the block, which releases the lock;
  otherwise the handler is suspended in the scan.\<close>

definition start_build ::
  "('k, 'a) feature \<Rightarrow> nat \<Rightarrow> 'k \<Rightarrow> ('k, 'a) state \<Rightarrow> ('k, 'a) state" where
  "start_build F rid key s =
     (let s1 = emit rid (Build key) s in
      case build_payload_begin F key s1 of
        Inl err \<Rightarrow> respond rid err (release rid key s1)
      | Inr sc \<Rightarrow> s1\<lparr>inflight := inflight s1 @ [(rid, sc)]\<rparr>)"

text \<open>The body of \<^verbatim>\<open>async with lock\<close> (\<^verbatim>\<open>role_members.py\<close> 162-170,
  \<^verbatim>\<open>subscriptions.py\<close> 137-144), entered with the lock held: the cache is read again,
  and only a miss calls the builder.\<close>

definition handler_locked ::
  "('k, 'a) feature \<Rightarrow> nat \<Rightarrow> 'k \<Rightarrow> ('k, 'a) state \<Rightarrow> ('k, 'a) state" where
  "handler_locked F rid key s =
     (case cache s key of
        None \<Rightarrow> start_build F rid key s
      | Some entry2 \<Rightarrow>
          if cache_valid s entry2
          then respond rid (JsonResponse (payload entry2)) (release rid key s)
          else start_build F rid key s)"

text \<open>The handler from the cache key on (\<^verbatim>\<open>handler\<close>, \<^verbatim>\<open>role_members.py\<close> 140-162,
  and \<^verbatim>\<open>boosters\<close>, \<^verbatim>\<open>subscriptions.py\<close> 126-137): cache hit, else the lock of the
  key; a held lock answers 202 at once, a free one is taken.\<close>

definition handler_miss ::
  "('k, 'a) feature \<Rightarrow> nat \<Rightarrow> 'k \<Rightarrow> ('k, 'a) state \<Rightarrow> ('k, 'a) state" where
  "handler_miss F rid key s =
     (let s1 = get_lock key s in
      if locked key s1 then respond rid (HTTPAccepted (building_body F key)) s1
      else handler_locked F rid key (acquire rid key s1))"

definition handler ::
  "('k, 'a) feature \<Rightarrow> nat \<Rightarrow> 'k \<Rightarrow> ('k, 'a) state \<Rightarrow> ('k, 'a) state" where
  "handler F rid key s =
     (case cache s key of
        None \<Rightarrow> handler_miss F rid key s
      | Some entry \<Rightarrow>
          if cache_valid s entry then respond rid (JsonResponse (payload entry)) s
          else handler_miss F rid key s)"

subsection \<open>Resuming a suspended handler\<close>

text \<open>One turn of the \<^verbatim>\<open>async for\<close> loop: the upstream yields a member.\<close>

definition scan_yield :: "('k, 'a) feature \<Rightarrow> member \<Rightarrow> ('k, 'a) scan \<Rightarrow> ('k, 'a) scan" where
  "scan_yield F m sc = sc\<lparr>scan_acc := scan_item F (scan_key sc) m (scan_acc sc)\<rparr>"

text \<open>The scan ended in time: the rest of \<^verbatim>\<open>_build_payload\<close> builds the payload from the
  guild object as it is now, the handler stores it with the time of the commit, leaves
  the block and answers.\<close>

definition build_done ::
  "('k, 'a) feature \<Rightarrow> nat \<Rightarrow> ('k, 'a) scan \<Rightarrow> ('k, 'a) state \<Rightarrow> ('k, 'a) state" where
  "build_done F rid sc s =
     (let key = scan_key sc;
          p = assemble F key (guild_obj (bot_of s) (scan_guild sc)) (scan_acc sc);
          s1 = s\<lparr>cache := (cache s)(key := Some \<lparr>ts = clock s, payload = p\<rparr>)\<rparr>
      in respond rid (JsonResponse p) (release rid key s1))"

text \<open>\<^verbatim>\<open>except asyncio.TimeoutError\<close> (line 84 of both modules): \<^verbatim>\<open>_build_payload\<close>
  raises \<^verbatim>\<open>HTTPAccepted\<close>, which leaves the \<^verbatim>\<open>async with\<close> block. The clause catches
  the timeout of \<^verbatim>\<open>asyncio.wait_for\<close> and a \<^verbatim>\<open>TimeoutError\<close> that the scan itself
  raises.\<close>

definition build_timeout ::
  "('k, 'a) feature \<Rightarrow> nat \<Rightarrow> ('k, 'a) scan \<Rightarrow> ('k, 'a) state \<Rightarrow> ('k, 'a) state" where
  "build_timeout F rid sc s =
     respond rid (HTTPAccepted (building_body F (scan_key sc))) (release rid (scan_key sc) s)"

text \<open>Any other exception of \<^verbatim>\<open>guild.fetch_members\<close> is not caught: it leaves the block
  too.\<close>

definition build_failed :: "nat \<Rightarrow> ('k, 'a) scan \<Rightarrow> ('k, 'a) state \<Rightarrow> ('k, 'a) state" where
  "build_failed rid sc s = respond rid ServerError (release rid (scan_key sc) s)"

section \<open>The event loop\<close>

text \<open>
  What can happen next: a request for a key arrives; the upstream yields a member to
  the scan of a suspended handler, ends its sequence, fails, or fails with a
  \<^verbatim>\<open>TimeoutError\<close>; the timer of a scan goes off; time passes; the gateway changes what
  the bot knows about guilds. The timer of \<^verbatim>\<open>asyncio.wait_for\<close> does not go off before
  the deadline; how long after it the loop delivers the timeout is not fixed here. The
  clock does not go back. An event that cannot happen in a state leaves it as it is.
\<close>

datatype 'k event =
    Request 'k
  | Yield nat member
  | Exhausted nat
  | UpstreamError nat
  | UpstreamTimeout nat
  | Deadline nat
  | Tick real
  | Gateway bot

definition deadline :: "('k, 'a) state \<Rightarrow> ('k, 'a) scan \<Rightarrow> real" where
  "deadline s sc = scan_started sc + real_of_int (build_timeout_seconds s)"

definition drop_rid :: "nat \<Rightarrow> (nat \<times> 'b) list \<Rightarrow> (nat \<times> 'b) list" where
  "drop_rid rid xs = filter (\<lambda>(r, _). r \<noteq> rid) xs"

definition set_rid :: "nat \<Rightarrow> 'b \<Rightarrow> (nat \<times> 'b) list \<Rightarrow> (nat \<times> 'b) list" where
  "set_rid rid v xs = map (\<lambda>(r, x). if r = rid then (r, v) else (r, x)) xs"

definition resume ::
  "nat \<Rightarrow> ('k, 'a) state \<Rightarrow> (('k, 'a) scan \<Rightarrow> ('k, 'a) state \<Rightarrow> ('k, 'a) state) \<Rightarrow> ('k, 'a) state" where
  "resume rid s k =
     (case map_of (inflight s) rid of
        None \<Rightarrow> s
      | Some sc \<Rightarrow> k sc (s\<lparr>inflight := drop_rid rid (inflight s)\<rparr>))"

fun step :: "('k, 'a) feature \<Rightarrow> ('k, 'a) state \<Rightarrow> 'k event \<Rightarrow> ('k, 'a) state" where
  "step F s (Request key) = handler F (next_rid s) key (s\<lparr>next_rid := Suc (next_rid s)\<rparr>)"
| "step F s (Yield rid m) =
     (case map_of (inflight s) rid of
        None \<Rightarrow> s
      | Some sc \<Rightarrow> s\<lparr>inflight := set_rid rid (scan_yield F m sc) (inflight s)\<rparr>)"
| "step F s (Exhausted rid) = resume rid s (build_done F rid)"
| "step F s (UpstreamError rid) = resume rid s (build_failed rid)"
| "step F s (UpstreamTimeout rid) = resume rid s (build_timeout F rid)"
| "step F s (Deadline rid) =
     resume rid s (\<lambda>sc s'. if deadline s sc \<le> clock s then build_timeout F rid sc s' else s)"
| "step F s (Tick d) = (if 0 \<le> d then s\<lparr>clock := clock s + d\<rparr> else s)"
| "step F s (Gateway b) = s\<lparr>bot_of := b\<rparr>"

definition run :: "('k, 'a) feature \<Rightarrow> ('k, 'a) state \<Rightarrow> 'k event list \<Rightarrow> ('k, 'a) state" where
  "run F s evs = foldl (step F) s evs"

subsection \<open>Timers\<close>

text \<open>
  The timer of a suspended scan goes off with the event \<open>Deadline\<close> of its request, once
  its deadline has come. \<open>fired\<close> lists the requests whose timer has gone off.
\<close>

definition fire :: "('k, 'a) state \<Rightarrow> nat list \<Rightarrow> 'k event \<Rightarrow> nat list" where
  "fire s fired e =
     (case e of
        Deadline rid \<Rightarrow>
          (case map_of (inflight s) rid of
             None \<Rightarrow> fired
           | Some sc \<Rightarrow> if deadline s sc \<le> clock s then rid # fired else fired)
      | _ \<Rightarrow> fired)"

text \<open>
  Time may pass by \<open>d\<close> when it does not go more than \<open>late\<close> seconds beyond the deadline
  of a suspended scan whose timer has not gone off yet. This constrains the clock and the
  timers only: what the handler does when its timer goes off is not part of it.
\<close>

definition tick_ok :: "real \<Rightarrow> ('k, 'a) state \<Rightarrow> nat list \<Rightarrow> 'k event \<Rightarrow> bool" where
  "tick_ok late s fired e =
     (case e of
        Tick d \<Rightarrow>
          list_all (\<lambda>(rid, sc). rid \<in> set fired \<or> clock s + d \<le> deadline s sc + late) (inflight s)
      | _ \<Rightarrow> True)"

text \<open>
  A schedule of events is punctual up to \<open>late\<close> seconds when each of its steps is; with
  \<open>late = 0\<close> every timer goes off as its deadline comes.
\<close>

fun punctual :: "real \<Rightarrow> ('k, 'a) feature \<Rightarrow> ('k, 'a) state \<Rightarrow> nat list \<Rightarrow> 'k event list \<Rightarrow> bool" where
  "punctual late F s fired [] = True"
| "punctual late F s fired (e # evs) =
     (tick_ok late s fired e \<and> punctual late F (step F s e) (fire s fired e) evs)"

section \<open>Observations on a state\<close>

text \<open>The requests that are inside the build phase for a key: the handlers suspended in
  a scan for it.\<close>

definition builders :: "'k \<Rightarrow> ('k, 'a) state \<Rightarrow> nat list" where
  "builders key s = map fst (filter (\<lambda>(rid, sc). scan_key sc = key) (inflight s))"

text \<open>The cache lookup of the handler fails: no entry, or an entry that is not valid.\<close>

definition miss :: "'k \<Rightarrow> ('k, 'a) state \<Rightarrow> bool" where
  "miss key s = (\<forall>e. cache s key = Some e \<longrightarrow> \<not> cache_valid s e)"

text \<open>How often a request has acquired and released the lock of a key, and whether it has
  been answered.\<close>

definition acquired :: "nat \<Rightarrow> 'k \<Rightarrow> ('k, 'a) state \<Rightarrow> nat" where
  "acquired rid key s = count_list (trace s) (rid, Acquire key)"

definition released :: "nat \<Rightarrow> 'k \<Rightarrow> ('k, 'a) state \<Rightarrow> nat" where
  "released rid key s = count_list (trace s) (rid, Release key)"

definition answered :: "nat \<Rightarrow> ('k, 'a) state \<Rightarrow> bool" where
  "answered rid s = (rid \<in> set (map fst (responses s)))"

text \<open>
  The order of the effects on one key. Reading the log from the start, \<open>lock_step\<close> keeps
  the request that holds the lock of the key (\<open>Some None\<close>: nobody): an acquisition is in
  order when nobody holds the lock, a call of the builder and a release when the request
  itself holds it. \<open>lock_order\<close> is \<open>None\<close> for a log that is out of order and else the
  holder at its end.
\<close>

fun lock_step :: "'k \<Rightarrow> nat option option \<Rightarrow> nat \<times> 'k effect \<Rightarrow> nat option option" where
  "lock_step key None _ = None"
| "lock_step key (Some h) (rid, Acquire k) =
     (if k \<noteq> key then Some h else if h = None then Some (Some rid) else None)"
| "lock_step key (Some h) (rid, Build k) =
     (if k \<noteq> key then Some h else if h = Some rid then Some h else None)"
| "lock_step key (Some h) (rid, Release k) =
     (if k \<noteq> key then Some h else if h = Some rid then Some None else None)"

definition lock_order :: "'k \<Rightarrow> (nat \<times> 'k effect) list \<Rightarrow> nat option option" where
  "lock_order key tr = foldl (lock_step key) (Some None) tr"

text \<open>The request that is inside the build phase for a key, if there is one.\<close>

definition holder :: "'k \<Rightarrow> ('k, 'a) state \<Rightarrow> nat option" where
  "holder key s = (case builders key s of [] \<Rightarrow> None | r # _ \<Rightarrow> Some r)"

text \<open>The members the upstream yields to the scan of a request in a list of events.\<close>

fun yielded :: "nat \<Rightarrow> 'k event list \<Rightarrow> member list" where
  "yielded rid [] = []"
| "yielded rid (Yield r m # evs) = (if r = rid then m # yielded rid evs else yielded rid evs)"
| "yielded rid (_ # evs) = yielded rid evs"

section \<open>Invariants\<close>

text \<open>The suspended scans as the invariants see them: request number, key and start time.\<close>

definition builds :: "('k, 'a) state \<Rightarrow> (nat \<times> 'k \<times> real) list" where
  "builds s = map (\<lambda>(rid, sc). (rid, scan_key sc, scan_started sc)) (inflight s)"

text \<open>No entry of the key is valid at time \<open>t\<close>.\<close>

definition stale_at :: "('k, 'a) state \<Rightarrow> 'k \<Rightarrow> real \<Rightarrow> bool" where
  "stale_at s key t = (\<forall>e. cache s key = Some e \<longrightarrow> real_of_int (cache_seconds s) \<le> t - ts e)"

text \<open>
  The invariant of the event loop: the deadline setting is at least 5; request numbers
  of suspended scans are distinct and already issued; a suspended scan holds the lock of
  its key, started no later than now, and found the cache
  entry of its key stale when it started; no two suspended scans share a key; and a held
  lock belongs to a suspended scan.
\<close>

definition loop_inv :: "('k, 'a) state \<Rightarrow> bool" where
  "loop_inv s \<longleftrightarrow>
     5 \<le> build_timeout_seconds s \<and>
     distinct (map fst (builds s)) \<and>
     (\<forall>(rid, key, t) \<in> set (builds s).
        rid < next_rid s \<and> locked key s \<and> t \<le> clock s \<and> stale_at s key t) \<and>
     (\<forall>(r1, k1, t1) \<in> set (builds s). \<forall>(r2, k2, t2) \<in> set (builds s). k1 = k2 \<longrightarrow> r1 = r2) \<and>
     (\<forall>key. locked key s \<longrightarrow> (\<exists>(rid, k, t) \<in> set (builds s). k = key))"

text \<open>1 while the request is inside the build phase for the key, else 0.\<close>

definition holds :: "nat \<Rightarrow> 'k \<Rightarrow> ('k, 'a) state \<Rightarrow> nat" where
  "holds rid key s = (if \<exists>t. (rid, key, t) \<in> set (builds s) then 1 else 0)"

text \<open>
  A request has acquired the lock of a key at most once, and released it as often as it
  acquired it unless it still is in the build phase; a request number that was not
  issued yet has no acquisition logged.
\<close>

definition balanced :: "('k, 'a) state \<Rightarrow> nat \<Rightarrow> 'k \<Rightarrow> bool" where
  "balanced s rid key \<longleftrightarrow>
     acquired rid key s = released rid key s + holds rid key s \<and>
     acquired rid key s \<le> 1 \<and> (next_rid s \<le> rid \<longrightarrow> acquired rid key s = 0)"

text \<open>The invariant of the log: every request is balanced on every key, and a request that
  has been answered was issued and is not in the build phase.\<close>

definition trace_inv :: "('k, 'a) state \<Rightarrow> bool" where
  "trace_inv s \<longleftrightarrow>
     (\<forall>rid key. balanced s rid key) \<and>
     (\<forall>rid. answered rid s \<longrightarrow> rid < next_rid s \<and> (\<forall>k t. (rid, k, t) \<notin> set (builds s)))"

text \<open>The log is in order on every key, and its holder is the request in the build phase.\<close>

definition order_inv :: "('k, 'a) state \<Rightarrow> bool" where
  "order_inv s \<longleftrightarrow> (\<forall>key. lock_order key (trace s) = Some (holder key s))"

text \<open>What an event does to the suspended scans and the cache: nothing; or it appends the
  scan of the new request; or it ends one scan and may write the entry of its key only.\<close>

definition step_kind :: "('k, 'a) state \<Rightarrow> ('k, 'a) state \<Rightarrow> bool" where
  "step_kind s s' \<longleftrightarrow>
     next_rid s \<le> next_rid s' \<and>
     ((builds s' = builds s \<and> cache s' = cache s) \<or>
      (\<exists>key. builds s' = builds s @ [(next_rid s, key, clock s)] \<and> cache s' = cache s) \<or>
      (\<exists>rid sc. map_of (inflight s) rid = Some sc \<and>
         builds s' = filter (\<lambda>(r, _). r \<noteq> rid) (builds s) \<and>
         (\<forall>k. k \<noteq> scan_key sc \<longrightarrow> cache s' k = cache s k)))"

text \<open>
  The invariant of the timers: the timer of a suspended scan has not gone off, the clock is
  at most \<open>late\<close> seconds beyond its deadline, and the requests whose timer has gone off
  were issued.
\<close>

definition timer_inv :: "real \<Rightarrow> ('k, 'a) state \<Rightarrow> nat list \<Rightarrow> bool" where
  "timer_inv late s fired \<longleftrightarrow>
     (\<forall>(rid, key, t) \<in> set (builds s).
        rid \<notin> set fired \<and> clock s \<le> t + real_of_int (build_timeout_seconds s) + late) \<and>
     (\<forall>r \<in> set fired. r < next_rid s)"

section \<open>Example data\<close>

text \<open>A guild whose role cache knows role 3 only; a bot that sees this guild under id 7
  and no other guild; a bot that sees no guild at all.\<close>

definition ex_guild :: guild where
  "ex_guild =
     \<lparr>guild_ident = 7, guild_name = ''Lab'',
      get_role = (\<lambda>r. if r = 3 then Some ''mods'' else None)\<rparr>"

definition ex_bot :: bot where
  "ex_bot = \<lparr>get_guild = (\<lambda>i. if i = 7 then Some 0 else None), guild_obj = (\<lambda>_. ex_guild)\<rparr>"

definition no_bot :: bot where
  "no_bot = \<lparr>get_guild = (\<lambda>_. None), guild_obj = (\<lambda>_. ex_guild)\<rparr>"

text \<open>A member with roles 1 and 3, a member with role 3 only who boosts, and the payload
  of a scan of guild 7 for role 3 that met the first member only.\<close>

definition ex_member :: member where
  "ex_member =
     \<lparr>member_id = 42, member_name = ''al'', display_name = ''Al'', member_roles = [1, 3],
      premium_since = None\<rparr>"

definition ex_other :: member where
  "ex_other =
     \<lparr>member_id = 43, member_name = ''bo'', display_name = ''Bo'', member_roles = [3],
      premium_since = Some ''2024-01-01T00:00:00''\<rparr>"

definition ex_payload :: json where
  "ex_payload =
     JDict
       [(''guild_id'', JStr ''7''), (''guild_name'', JStr ''Lab''), (''role_id'', JStr ''3''),
        (''role_name'', JStr ''mods''), (''count'', JInt 1),
        (''members'', JList [JDict [(''discord_user_id'', JStr ''42'')]])]"

text \<open>
  States of a role-members instance configured with TTL 1 and deadline 1 (so 10 and 5):
  \<^item> \<open>ex_cached\<close>: a first build for \<open>(7, 3)\<close> has committed at time 0;
  \<^item> \<open>ex_expired\<close>: ten seconds later;
  \<^item> \<open>ex_building\<close>: a second request has started to rebuild the expired entry and has
    met the second member so far;
  \<^item> \<open>ex_stalled\<close>: the rebuild has got nothing more from the upstream for the five
    seconds of its deadline;
  \<^item> \<open>ex_paths\<close>: the deadline has fired, and a request for guild 8, which the bot does
    not see, has been answered;
  \<^item> \<open>ex_gone\<close>: eleven seconds after the first commit, the bot has lost the guild;
  \<^item> \<open>ex_scanned\<close>: on \<open>ex_cached\<close>, a request for role 1, which the role cache of the
    guild does not know, has scanned both members.
\<close>

definition ex_cached :: "(int \<times> int, string) state" where
  "ex_cached = run role_members (init ex_bot 1 1 0) [Request (7, 3), Yield 0 ex_member, Exhausted 0]"

definition ex_expired :: "(int \<times> int, string) state" where
  "ex_expired = run role_members ex_cached [Tick 10]"

definition ex_building :: "(int \<times> int, string) state" where
  "ex_building = run role_members ex_expired [Request (7, 3), Yield 1 ex_other]"

definition ex_stalled :: "(int \<times> int, string) state" where
  "ex_stalled = run role_members ex_building [Tick 5]"

definition ex_paths :: "(int \<times> int, string) state" where
  "ex_paths = run role_members ex_stalled [Deadline 1, Request (8, 1)]"

definition ex_gone :: "(int \<times> int, string) state" where
  "ex_gone = run role_members ex_cached [Tick 11, Gateway no_bot]"

definition ex_scanned :: "(int \<times> int, string) state" where
  "ex_scanned =
     run role_members (step role_members ex_cached (Request (7, 1)))
       [Yield 1 ex_member, Tick 1, Yield 1 ex_other]"

section \<open>Suspended scans\<close>

lemma map_fst_builds: "map fst (builds s) = map fst (inflight s)"
  by (simp add: builds_def case_prod_unfold comp_def)

lemma builds_drop: "builds (s\<lparr>inflight := drop_rid rid (inflight s)\<rparr>) = filter (\<lambda>(r, _). r \<noteq> rid) (builds s)"
  by (simp add: builds_def drop_rid_def filter_map comp_def case_prod_unfold)

lemma map_of_builds:
  "map_of (inflight s) rid = Some sc \<Longrightarrow> (rid, scan_key sc, scan_started sc) \<in> set (builds s)"
  by (force simp: builds_def dest: map_of_SomeD)

lemma set_rid_skel:
  assumes "\<And>sc'. (rid, sc') \<in> set xs \<Longrightarrow> f sc' = f v"
  shows "map (\<lambda>(r, sc). (r, f sc)) (set_rid rid v xs) = map (\<lambda>(r, sc). (r, f sc)) xs"
  using assms by (induction xs) (auto simp: set_rid_def)

lemma builds_yield:
  assumes "distinct (map fst (inflight s))" "map_of (inflight s) rid = Some sc"
  shows "builds (s\<lparr>inflight := set_rid rid (scan_yield F m sc) (inflight s)\<rparr>) = builds s"
proof -
  have "\<And>sc'. (rid, sc') \<in> set (inflight s) \<Longrightarrow> sc' = sc"
    using assms by (simp add: map_of_eq_Some_iff)
  then have "\<And>sc'. (rid, sc') \<in> set (inflight s) \<Longrightarrow>
      (\<lambda>sc. (scan_key sc, scan_started sc)) sc' = (\<lambda>sc. (scan_key sc, scan_started sc)) (scan_yield F m sc)"
    by (simp add: scan_yield_def)
  from set_rid_skel[of rid "inflight s" "\<lambda>sc. (scan_key sc, scan_started sc)", OF this]
  show ?thesis by (simp add: builds_def)
qed

section \<open>One request\<close>

lemma respond_sel [simp]:
  "bot_of (respond rid r s) = bot_of s"
  "cache_seconds (respond rid r s) = cache_seconds s"
  "build_timeout_seconds (respond rid r s) = build_timeout_seconds s"
  "cache (respond rid r s) = cache s"
  "locks (respond rid r s) = locks s"
  "clock (respond rid r s) = clock s"
  "next_rid (respond rid r s) = next_rid s"
  "inflight (respond rid r s) = inflight s"
  "responses (respond rid r s) = responses s @ [(rid, r)]"
  "trace (respond rid r s) = trace s"
  by (simp_all add: respond_def)

lemma emit_sel [simp]:
  "bot_of (emit rid e s) = bot_of s"
  "cache_seconds (emit rid e s) = cache_seconds s"
  "build_timeout_seconds (emit rid e s) = build_timeout_seconds s"
  "cache (emit rid e s) = cache s"
  "locks (emit rid e s) = locks s"
  "clock (emit rid e s) = clock s"
  "next_rid (emit rid e s) = next_rid s"
  "inflight (emit rid e s) = inflight s"
  "responses (emit rid e s) = responses s"
  "trace (emit rid e s) = trace s @ [(rid, e)]"
  by (simp_all add: emit_def)

lemma acquire_sel [simp]:
  "bot_of (acquire rid key s) = bot_of s"
  "cache_seconds (acquire rid key s) = cache_seconds s"
  "build_timeout_seconds (acquire rid key s) = build_timeout_seconds s"
  "cache (acquire rid key s) = cache s"
  "locks (acquire rid key s) = (locks s)(key := Some True)"
  "clock (acquire rid key s) = clock s"
  "next_rid (acquire rid key s) = next_rid s"
  "inflight (acquire rid key s) = inflight s"
  "responses (acquire rid key s) = responses s"
  "trace (acquire rid key s) = trace s @ [(rid, Acquire key)]"
  by (simp_all add: acquire_def)

lemma release_sel [simp]:
  "bot_of (release rid key s) = bot_of s"
  "cache_seconds (release rid key s) = cache_seconds s"
  "build_timeout_seconds (release rid key s) = build_timeout_seconds s"
  "cache (release rid key s) = cache s"
  "locks (release rid key s) = (locks s)(key := Some False)"
  "clock (release rid key s) = clock s"
  "next_rid (release rid key s) = next_rid s"
  "inflight (release rid key s) = inflight s"
  "responses (release rid key s) = responses s"
  "trace (release rid key s) = trace s @ [(rid, Release key)]"
  by (simp_all add: release_def)

lemma get_lock_sel [simp]:
  "bot_of (get_lock key s) = bot_of s"
  "cache_seconds (get_lock key s) = cache_seconds s"
  "build_timeout_seconds (get_lock key s) = build_timeout_seconds s"
  "cache (get_lock key s) = cache s"
  "clock (get_lock key s) = clock s"
  "next_rid (get_lock key s) = next_rid s"
  "inflight (get_lock key s) = inflight s"
  "responses (get_lock key s) = responses s"
  "trace (get_lock key s) = trace s"
  by (simp_all add: get_lock_def split: option.splits)

lemma locked_get_lock [simp]: "locked k (get_lock key s) = locked k s"
  by (auto simp: get_lock_def locked_def split: option.splits)

lemma locks_acquire_get_lock [simp]:
  "(locks (get_lock key s))(key := v) = (locks s)(key := v)"
  by (auto simp: get_lock_def split: option.splits)

lemma get_lock_locked: "locked key s \<Longrightarrow> get_lock key s = s"
  by (simp add: get_lock_def locked_def)

lemma cache_valid_cong:
  "clock s' = clock s \<Longrightarrow> cache_seconds s' = cache_seconds s \<Longrightarrow> cache_valid s' e = cache_valid s e"
  by (simp add: cache_valid_def)

lemma handler_hit:
  "cache s key = Some e \<Longrightarrow> cache_valid s e \<Longrightarrow>
   handler F rid key s = respond rid (JsonResponse (payload e)) s"
  by (simp add: handler_def)

lemma handler_miss_eq: "miss key s \<Longrightarrow> handler F rid key s = handler_miss F rid key s"
  by (auto simp: handler_def miss_def split: option.splits)

lemma handler_busy:
  "miss key s \<Longrightarrow> locked key s \<Longrightarrow>
   handler F rid key s = respond rid (HTTPAccepted (building_body F key)) s"
  by (simp add: handler_miss_eq handler_miss_def get_lock_locked)

lemma handler_locked_miss:
  "miss key s \<Longrightarrow> clock s' = clock s \<Longrightarrow> cache_seconds s' = cache_seconds s \<Longrightarrow> cache s' = cache s \<Longrightarrow>
   handler_locked F rid key s' = start_build F rid key s'"
  by (auto simp: handler_locked_def miss_def cache_valid_def split: option.splits)

lemma handler_not_found:
  "miss key s \<Longrightarrow> \<not> locked key s \<Longrightarrow> get_guild (bot_of s) (guild_id_of F key) = None \<Longrightarrow>
   handler F rid key s =
     respond rid (HTTPNotFound not_found_body)
       (release rid key (emit rid (Build key) (acquire rid key (get_lock key s))))"
  by (simp add: handler_miss_eq handler_miss_def handler_locked_miss[of key s] start_build_def
      build_payload_begin_def Let_def)

lemma handler_started:
  "miss key s \<Longrightarrow> \<not> locked key s \<Longrightarrow> get_guild (bot_of s) (guild_id_of F key) = Some g \<Longrightarrow>
   handler F rid key s =
     (emit rid (Build key) (acquire rid key (get_lock key s)))
       \<lparr>inflight := inflight s @
          [(rid, \<lparr>scan_key = key, scan_guild = g, scan_acc = [], scan_started = clock s\<rparr>)]\<rparr>"
  by (simp add: handler_miss_eq handler_miss_def handler_locked_miss[of key s] start_build_def
      build_payload_begin_def Let_def)

lemma handler_cases:
  obtains
    (hit) e where "cache s key = Some e" "cache_valid s e"
  | (busy) "miss key s" "locked key s"
  | (not_found) "miss key s" "\<not> locked key s" "get_guild (bot_of s) (guild_id_of F key) = None"
  | (started) g where "miss key s" "\<not> locked key s" "get_guild (bot_of s) (guild_id_of F key) = Some g"
  by (cases "cache s key"; cases "get_guild (bot_of s) (guild_id_of F key)"; cases "locked key s") (auto simp: miss_def)

section \<open>The invariant of the event loop\<close>

lemma inv_init: "loop_inv (init bt c b t0)"
  by (simp add: loop_inv_def init_def builds_def locked_def)

lemma inv_tick: "loop_inv s \<Longrightarrow> loop_inv (step F s (Tick d))"
  by (auto simp: loop_inv_def builds_def locked_def stale_at_def list_all_iff deadline_def)

lemma inv_yield: "loop_inv s \<Longrightarrow> loop_inv (step F s (Yield rid m))"
proof (cases "map_of (inflight s) rid")
  case None
  then show "loop_inv s \<Longrightarrow> ?thesis" by simp
next
  case (Some sc)
  assume i: "loop_inv s"
  then have d: "distinct (map fst (inflight s))" by (simp add: loop_inv_def map_fst_builds)
  let ?s' = "s\<lparr>inflight := set_rid rid (scan_yield F m sc) (inflight s)\<rparr>"
  have b: "builds ?s' = builds s" by (rule builds_yield[OF d Some])
  have "loop_inv ?s'" using i unfolding loop_inv_def b by (simp add: locked_def stale_at_def)
  then show ?thesis using Some by simp
qed

lemma inv_request: 
  assumes i: "loop_inv s"
  shows "loop_inv (step F s (Request key))"
proof -
  let ?s0 = "s\<lparr>next_rid := Suc (next_rid s)\<rparr>"
  let ?rid = "next_rid s"
  have st: "step F s (Request key) = handler F ?rid key ?s0" by simp
  show ?thesis
  proof (cases rule: handler_cases[where s="?s0" and key=key and F=F])
    case (hit e)
    then show ?thesis using i unfolding st
      by (auto simp: handler_hit loop_inv_def builds_def locked_def stale_at_def)
  next
    case busy
    then show ?thesis using i unfolding st
      by (auto simp: handler_busy loop_inv_def builds_def locked_def stale_at_def)
  next
    case not_found
    then show ?thesis using i unfolding st
      by (auto simp: handler_not_found loop_inv_def builds_def locked_def stale_at_def)
  next
    case (started g)
    then show ?thesis using i unfolding st
      apply (simp add: handler_started)
      apply (auto simp: loop_inv_def builds_def locked_def stale_at_def miss_def cache_valid_def)
      done
  qed
qed

lemma inv_finish:
  assumes i: "loop_inv s" and m: "map_of (inflight s) rid = Some sc"
    and b: "builds s' = filter (\<lambda>(r, _). r \<noteq> rid) (builds s)"
    and l: "locks s' = (locks s)(scan_key sc := Some False)"
    and c: "clock s' = clock s" "next_rid s' = next_rid s"
      "build_timeout_seconds s' = build_timeout_seconds s" "cache_seconds s' = cache_seconds s"
    and ca: "\<And>k. k \<noteq> scan_key sc \<Longrightarrow> cache s' k = cache s k"
  shows "loop_inv s'"
proof -
  have mem: "(rid, scan_key sc, scan_started sc) \<in> set (builds s)"
    using m by (rule map_of_builds)
  have d: "distinct (map fst (builds s))" using i by (simp add: loop_inv_def)
  have one: "\<And>r k t. (r, k, t) \<in> set (builds s) \<Longrightarrow> k = scan_key sc \<Longrightarrow> r = rid"
    using i mem unfolding loop_inv_def by blast
  have key: "\<And>k t. (rid, k, t) \<in> set (builds s) \<Longrightarrow> k = scan_key sc"
    using eq_key_imp_eq_value[OF d mem] by blast
  have other: "\<And>r k t. (r, k, t) \<in> set (builds s) \<Longrightarrow> r \<noteq> rid \<Longrightarrow> k \<noteq> scan_key sc"
    using one by blast
  have p1: "5 \<le> build_timeout_seconds s'" using i c by (simp add: loop_inv_def)
  have p2: "distinct (map fst (builds s'))" using d unfolding b by (simp add: distinct_map_filter)
  have p3: "\<forall>(r, k, t) \<in> set (builds s').
        r < next_rid s' \<and> locked k s' \<and> t \<le> clock s' \<and> stale_at s' k t"
    using i other unfolding loop_inv_def b
    by (fastforce simp: locked_def stale_at_def l c ca)
  have p4: "\<forall>(r1, k1, t1) \<in> set (builds s'). \<forall>(r2, k2, t2) \<in> set (builds s'). k1 = k2 \<longrightarrow> r1 = r2"
    using i unfolding loop_inv_def b by fastforce
  have p5: "\<forall>k. locked k s' \<longrightarrow> (\<exists>(r, k', t) \<in> set (builds s'). k' = k)"
  proof (intro allI impI)
    fix k assume "locked k s'"
    then have kk: "k \<noteq> scan_key sc" and "locked k s"
      by (auto simp: locked_def l split: if_splits)
    then obtain r t where rt: "(r, k, t) \<in> set (builds s)"
      using i unfolding loop_inv_def by blast
    with kk key have "r \<noteq> rid" by blast
    with rt show "\<exists>(r, k', t) \<in> set (builds s'). k' = k"
      unfolding b by force
  qed
  show ?thesis unfolding loop_inv_def using p1 p2 p3 p4 p5 by blast
qed

lemma builds_frame [simp]:
  "builds (respond rid r s) = builds s"
  "builds (release rid key s) = builds s"
  "builds (emit rid e s) = builds s"
  "builds (acquire rid key s) = builds s"
  "builds (s\<lparr>cache := c\<rparr>) = builds s"
  by (simp_all add: builds_def)

lemma inv_resume:
  assumes i: "loop_inv s"
    and k: "\<And>sc s0. k sc s0 = s \<or>
      (inflight (k sc s0) = inflight s0 \<and> locks (k sc s0) = (locks s0)(scan_key sc := Some False) \<and>
       clock (k sc s0) = clock s0 \<and> next_rid (k sc s0) = next_rid s0 \<and>
       build_timeout_seconds (k sc s0) = build_timeout_seconds s0 \<and>
       cache_seconds (k sc s0) = cache_seconds s0 \<and>
       (\<forall>key. key \<noteq> scan_key sc \<longrightarrow> cache (k sc s0) key = cache s0 key))"
  shows "loop_inv (resume rid s k)"
proof (cases "map_of (inflight s) rid")
  case None
  then show ?thesis using i by (simp add: resume_def)
next
  case (Some sc)
  let ?s0 = "s\<lparr>inflight := drop_rid rid (inflight s)\<rparr>"
  have r: "resume rid s k = k sc ?s0" using Some by (simp add: resume_def)
  from k[of sc ?s0] show ?thesis
  proof
    assume "k sc ?s0 = s" then show ?thesis using i r by simp
  next
    assume a: "inflight (k sc ?s0) = inflight ?s0 \<and> locks (k sc ?s0) = (locks ?s0)(scan_key sc := Some False) \<and>
       clock (k sc ?s0) = clock ?s0 \<and> next_rid (k sc ?s0) = next_rid ?s0 \<and>
       build_timeout_seconds (k sc ?s0) = build_timeout_seconds ?s0 \<and>
       cache_seconds (k sc ?s0) = cache_seconds ?s0 \<and>
       (\<forall>key. key \<noteq> scan_key sc \<longrightarrow> cache (k sc ?s0) key = cache ?s0 key)"
    have b: "builds (k sc ?s0) = filter (\<lambda>(r, _). r \<noteq> rid) (builds s)"
      using a builds_drop[of rid s] by (simp add: builds_def)
    show ?thesis unfolding r
      by (rule inv_finish[OF i Some b]) (use a in auto)
  qed
qed

lemma inv_step: "loop_inv s \<Longrightarrow> loop_inv (step F s e)"
proof (cases e)
  case (Request key) then show "loop_inv s \<Longrightarrow> ?thesis" by (simp only: inv_request)
next
  case (Yield rid m) then show "loop_inv s \<Longrightarrow> ?thesis" by (simp only: inv_yield)
next
  case (Exhausted rid)
  then show "loop_inv s \<Longrightarrow> ?thesis"
    by (auto intro!: inv_resume simp: build_done_def Let_def)
next
  case (UpstreamError rid)
  then show "loop_inv s \<Longrightarrow> ?thesis"
    by (auto intro!: inv_resume simp: build_failed_def)
next
  case (UpstreamTimeout rid)
  then show "loop_inv s \<Longrightarrow> ?thesis"
    by (auto intro!: inv_resume simp: build_timeout_def)
next
  case (Deadline rid)
  then show "loop_inv s \<Longrightarrow> ?thesis"
    by (auto intro!: inv_resume simp: build_timeout_def)
next
  case (Tick d) then show "loop_inv s \<Longrightarrow> ?thesis" by (simp only: inv_tick)
next
  case (Gateway b)
  then show "loop_inv s \<Longrightarrow> ?thesis"
    by (simp add: loop_inv_def builds_def locked_def stale_at_def)
qed

lemma inv_run: "loop_inv s \<Longrightarrow> loop_inv (run F s evs)"
  unfolding run_def by (induction evs arbitrary: s) (simp_all add: inv_step)

section \<open>The settings are never written\<close>

lemma step_settings:
  "cache_seconds (step F s e) = cache_seconds s \<and>
   build_timeout_seconds (step F s e) = build_timeout_seconds s"
  by (cases e)
    (auto simp: handler_def handler_miss_def handler_locked_def start_build_def
      build_payload_begin_def resume_def build_done_def build_timeout_def build_failed_def
      Let_def split: option.splits)

lemma run_settings:
  "cache_seconds (run F s evs) = cache_seconds s \<and>
   build_timeout_seconds (run F s evs) = build_timeout_seconds s"
  unfolding run_def by (induction evs arbitrary: s) (simp_all add: step_settings)

section \<open>The outcome of a request\<close>

lemma request_cache: "cache (step F s (Request key)) = cache s"
  by (auto simp: handler_def handler_miss_def handler_locked_def start_build_def
      build_payload_begin_def Let_def split: option.splits sum.splits)

lemma miss_next_rid [simp]: "miss key (s\<lparr>next_rid := n\<rparr>) = miss key s"
  by (simp add: miss_def cache_valid_def)

lemma locked_next_rid [simp]: "locked key (s\<lparr>next_rid := n\<rparr>) = locked key s"
  by (simp add: locked_def)

lemma request_step:
  "step F s (Request key) = handler F (next_rid s) key (s\<lparr>next_rid := Suc (next_rid s)\<rparr>)"
  by simp

lemma request_outcome:
  "(\<exists>e. cache s key = Some e \<and> cache_valid s e \<and>
        step F s (Request key) =
          respond (next_rid s) (JsonResponse (payload e)) (s\<lparr>next_rid := Suc (next_rid s)\<rparr>)) \<or>
   (miss key s \<and> locked key s \<and>
        step F s (Request key) =
          respond (next_rid s) (HTTPAccepted (building_body F key))
            (s\<lparr>next_rid := Suc (next_rid s)\<rparr>)) \<or>
   (miss key s \<and> \<not> locked key s \<and> get_guild (bot_of s) (guild_id_of F key) = None \<and>
        step F s (Request key) =
          respond (next_rid s) (HTTPNotFound not_found_body)
            (release (next_rid s) key (emit (next_rid s) (Build key)
              (acquire (next_rid s) key (get_lock key (s\<lparr>next_rid := Suc (next_rid s)\<rparr>)))))) \<or>
   (\<exists>g. miss key s \<and> \<not> locked key s \<and> get_guild (bot_of s) (guild_id_of F key) = Some g \<and>
        step F s (Request key) =
          (emit (next_rid s) (Build key)
              (acquire (next_rid s) key (get_lock key (s\<lparr>next_rid := Suc (next_rid s)\<rparr>))))
            \<lparr>inflight := inflight s @
               [(next_rid s, \<lparr>scan_key = key, scan_guild = g, scan_acc = [], scan_started = clock s\<rparr>)]\<rparr>)"
proof (cases rule: handler_cases[where s="s\<lparr>next_rid := Suc (next_rid s)\<rparr>" and key=key and F=F])
  case (hit e)
  then have "cache s key = Some e" "cache_valid s e" by (simp_all add: cache_valid_def)
  then show ?thesis using handler_hit[OF hit, of F "next_rid s"] by simp
next
  case busy
  then show ?thesis using handler_busy[OF busy, of F "next_rid s"] by simp
next
  case not_found
  then show ?thesis using handler_not_found[OF not_found, of "next_rid s"] by simp
next
  case (started g)
  then show ?thesis using handler_started[OF started, of "next_rid s"] by simp
qed

section \<open>Reachable states\<close>

lemma inv_reachable: "loop_inv (run F (init bt c b t0) evs)"
  by (rule inv_run[OF inv_init])

lemma filter_at_most_one:
  assumes "distinct (map fst xs)"
    and "\<And>x y. x \<in> set xs \<Longrightarrow> y \<in> set xs \<Longrightarrow> P x \<Longrightarrow> P y \<Longrightarrow> fst x = fst y"
  shows "length (filter P xs) \<le> 1"
  using assms
proof (induction xs)
  case Nil
  then show ?case by simp
next
  case (Cons x xs)
  have ih: "length (filter P xs) \<le> 1" using Cons by auto
  show ?case
  proof (cases "P x")
    case False
    then show ?thesis using ih by simp
  next
    case True
    have "filter P xs = []"
    proof (rule ccontr)
      assume "filter P xs \<noteq> []"
      then obtain y where y: "y \<in> set xs" "P y"
        by (metis filter_False)
      then have "fst x = fst y" using Cons.prems(2)[of x y] True by simp
      moreover have "fst x \<notin> fst ` set xs" using Cons.prems(1) by simp
      ultimately show False using y by force
    qed
    then show ?thesis by simp
  qed
qed

lemma builders_builds:
  "builders key s = map fst (filter (\<lambda>(r, k, t). k = key) (builds s))"
  by (simp add: builders_def builds_def filter_map comp_def case_prod_unfold)

lemma inv_builders:
  assumes "loop_inv s"
  shows "length (builders key s) = (if locked key s then 1 else 0)"
proof -
  let ?P = "\<lambda>(r, k, t). k = key"
  have d: "distinct (map fst (builds s))" using assms by (simp add: loop_inv_def)
  have u: "\<And>x y. x \<in> set (builds s) \<Longrightarrow> y \<in> set (builds s) \<Longrightarrow> ?P x \<Longrightarrow> ?P y \<Longrightarrow> fst x = fst y"
    using assms unfolding loop_inv_def by fastforce
  have le: "length (filter ?P (builds s)) \<le> 1" by (rule filter_at_most_one[OF d u])
  show ?thesis
  proof (cases "locked key s")
    case True
    then obtain x where "x \<in> set (builds s)" "?P x"
      using assms unfolding loop_inv_def by fastforce
    then have "filter ?P (builds s) \<noteq> []" by (auto simp: filter_empty_conv)
    then have "0 < length (filter ?P (builds s))" by simp
    with le have "length (filter ?P (builds s)) = 1" by linarith
    with True show ?thesis by (simp add: builders_builds)
  next
    case False
    have "filter ?P (builds s) = []"
      using assms False unfolding loop_inv_def by (fastforce simp: filter_empty_conv)
    with False show ?thesis by (simp add: builders_builds)
  qed
qed

lemma inv_locked_miss:
  assumes "loop_inv s" "locked key s"
  shows "miss key s"
proof -
  obtain r t where rt: "(r, key, t) \<in> set (builds s)"
    using assms unfolding loop_inv_def by blast
  then have "t \<le> clock s" "stale_at s key t"
    using assms(1) unfolding loop_inv_def by auto
  then show ?thesis
    by (fastforce simp: miss_def stale_at_def cache_valid_def)
qed

lemma run_append: "run F s (xs @ ys) = run F (run F s xs) ys"
  by (simp add: run_def)

section \<open>The invariant of the log\<close>

lemma trace_inv_init: "trace_inv (init bt c b t0)"
  by (simp add: trace_inv_def balanced_def init_def acquired_def released_def holds_def
      answered_def builds_def)

lemma fresh_rid:
  assumes "loop_inv s" "next_rid s \<le> rid"
  shows "(rid, k, t) \<notin> set (builds s)"
  using assms unfolding loop_inv_def by fastforce

lemma trace_inv_quiet:
  assumes i: "loop_inv s" and t: "trace_inv s"
    and tr: "trace s' = trace s" and b: "builds s' = builds s"
    and nr: "next_rid s \<le> next_rid s'"
    and rs: "\<And>r. answered r s' \<Longrightarrow> answered r s \<or> (next_rid s \<le> r \<and> r < next_rid s')"
  shows "trace_inv s'"
proof -
  have bal: "balanced s' r k" for r k
    using t nr unfolding trace_inv_def balanced_def acquired_def released_def holds_def tr b
    by (metis order_trans)
  have ans: "r < next_rid s' \<and> (\<forall>k t. (r, k, t) \<notin> set (builds s'))" if "answered r s'" for r
    using rs[OF that]
  proof
    assume "answered r s"
    then show ?thesis using t nr unfolding trace_inv_def b by (metis less_le_trans)
  next
    assume "next_rid s \<le> r \<and> r < next_rid s'"
    then show ?thesis using fresh_rid[OF i] unfolding b by blast
  qed
  show ?thesis unfolding trace_inv_def using bal ans by blast
qed

lemma trace_inv_not_found:
  assumes i: "loop_inv s" and t: "trace_inv s"
    and tr: "trace s' = trace s @ [(next_rid s, Acquire key), (next_rid s, Build key), (next_rid s, Release key)]"
    and b: "builds s' = builds s"
    and nr: "next_rid s' = Suc (next_rid s)"
    and rs: "responses s' = responses s @ [(next_rid s, resp)]"
  shows "trace_inv s'"
proof -
  let ?rid = "next_rid s"
  have old: "balanced s r k" for r k using t unfolding trace_inv_def by blast
  have h0: "holds ?rid k s = 0" for k using fresh_rid[OF i, of ?rid] by (simp add: holds_def)
  have a0: "acquired ?rid k s = 0" for k using old[of ?rid k] by (simp add: balanced_def)
  have r0: "released ?rid k s = 0" for k using old[of ?rid k] a0[of k] by (simp add: balanced_def)
  have a: "acquired r k s' = acquired r k s + (if r = ?rid \<and> k = key then 1 else 0)" for r k
    by (simp add: acquired_def tr)
  have r: "released r k s' = released r k s + (if r = ?rid \<and> k = key then 1 else 0)" for r k
    by (simp add: released_def tr)
  have h: "holds r k s' = holds r k s" for r k by (simp add: holds_def b)
  have bal: "balanced s' r k" for r k
    using old[of r k] a0[of k] r0[of k] h0[of k]
    unfolding balanced_def a r h nr by auto
  have ans: "r < next_rid s' \<and> (\<forall>k t. (r, k, t) \<notin> set (builds s'))" if "answered r s'" for r
  proof -
    from that have "answered r s \<or> r = ?rid" by (auto simp: answered_def rs)
    then show ?thesis
    proof
      assume "answered r s"
      then show ?thesis using t unfolding trace_inv_def b nr by (metis less_Suc_eq)
    next
      assume "r = ?rid"
      then show ?thesis using fresh_rid[OF i, of ?rid] unfolding b nr by simp
    qed
  qed
  show ?thesis unfolding trace_inv_def using bal ans by blast
qed

lemma trace_inv_started:
  assumes i: "loop_inv s" and t: "trace_inv s"
    and tr: "trace s' = trace s @ [(next_rid s, Acquire key), (next_rid s, Build key)]"
    and b: "builds s' = builds s @ [(next_rid s, key, t0)]"
    and nr: "next_rid s' = Suc (next_rid s)"
    and rs: "responses s' = responses s"
  shows "trace_inv s'"
proof -
  let ?rid = "next_rid s"
  have old: "balanced s r k" for r k using t unfolding trace_inv_def by blast
  have h0: "holds ?rid k s = 0" for k using fresh_rid[OF i, of ?rid] by (simp add: holds_def)
  have a0: "acquired ?rid k s = 0" for k using old[of ?rid k] by (simp add: balanced_def)
  have r0: "released ?rid k s = 0" for k using old[of ?rid k] a0[of k] by (simp add: balanced_def)
  have a: "acquired r k s' = acquired r k s + (if r = ?rid \<and> k = key then 1 else 0)" for r k
    by (simp add: acquired_def tr)
  have r: "released r k s' = released r k s" for r k
    by (simp add: released_def tr)
  have h: "holds r k s' = (if r = ?rid \<and> k = key then 1 else holds r k s)" for r k
    using h0[of k] by (auto simp: holds_def b split: if_splits)
  have bal: "balanced s' r k" for r k
    using old[of r k] a0[of k] r0[of k] h0[of k]
    unfolding balanced_def a r h nr by auto
  have ans: "r < next_rid s' \<and> (\<forall>k t. (r, k, t) \<notin> set (builds s'))" if "answered r s'" for r
  proof -
    from that have "answered r s" by (simp add: answered_def rs)
    then have "r < ?rid" "\<forall>k t. (r, k, t) \<notin> set (builds s)"
      using t unfolding trace_inv_def by blast+
    then show ?thesis unfolding b nr by auto
  qed
  show ?thesis unfolding trace_inv_def using bal ans by blast
qed

lemma trace_inv_finish:
  assumes i: "loop_inv s" and t: "trace_inv s"
    and mem: "(rid, key, t0) \<in> set (builds s)"
    and tr: "trace s' = trace s @ [(rid, Release key)]"
    and b: "builds s' = filter (\<lambda>(r, _). r \<noteq> rid) (builds s)"
    and nr: "next_rid s' = next_rid s"
    and rs: "responses s' = responses s @ [(rid, resp)]"
  shows "trace_inv s'"
proof -
  have old: "balanced s r k" for r k using t unfolding trace_inv_def by blast
  have d: "distinct (map fst (builds s))" using i by (simp add: loop_inv_def)
  have key: "k = key" if "(rid, k, t) \<in> set (builds s)" for k t
    using eq_key_imp_eq_value[OF d mem that] by simp
  have lt: "rid < next_rid s" using i mem unfolding loop_inv_def by fastforce
  have h1: "holds rid key s = 1" using mem by (auto simp: holds_def)
  have h0: "holds rid k s = 0" if "k \<noteq> key" for k using key that by (auto simp: holds_def)
  have a: "acquired r k s' = acquired r k s" for r k
    by (simp add: acquired_def tr)
  have r: "released r k s' = released r k s + (if r = rid \<and> k = key then 1 else 0)" for r k
    by (simp add: released_def tr)
  have h: "holds r k s' = (if r = rid then 0 else holds r k s)" for r k
    by (auto simp: holds_def b)
  have bal: "balanced s' r k" for r k
    using old[of r k] h1 h0[of k]
    unfolding balanced_def a r h nr by auto
  have ans: "r < next_rid s' \<and> (\<forall>k t. (r, k, t) \<notin> set (builds s'))" if "answered r s'" for r
  proof -
    from that have "answered r s \<or> r = rid" by (auto simp: answered_def rs)
    then show ?thesis
    proof
      assume "answered r s"
      then show ?thesis using t unfolding trace_inv_def b nr by auto
    next
      assume "r = rid"
      then show ?thesis using lt unfolding b nr by auto
    qed
  qed
  show ?thesis unfolding trace_inv_def using bal ans by blast
qed

lemma trace_inv_refl:
  assumes "loop_inv s" "trace_inv s"
    "trace s' = trace s" "builds s' = builds s" "next_rid s' = next_rid s" "responses s' = responses s"
  shows "trace_inv s'"
  by (rule trace_inv_quiet[OF assms(1,2,3,4)]) (simp_all add: assms answered_def)

lemma trace_inv_request:
  assumes i: "loop_inv s" and t: "trace_inv s"
  shows "trace_inv (step F s (Request key))"
proof -
  let ?rid = "next_rid s"
  let ?s' = "step F s (Request key)"
  from request_outcome[of s key F] show ?thesis
  proof (elim disjE exE conjE)
    fix e assume eq: "?s' = respond ?rid (JsonResponse (payload e)) (s\<lparr>next_rid := Suc ?rid\<rparr>)"
    show ?thesis unfolding eq
      by (rule trace_inv_quiet[OF i t]) (auto simp: answered_def builds_def)
  next
    assume eq: "?s' = respond ?rid (HTTPAccepted (building_body F key)) (s\<lparr>next_rid := Suc ?rid\<rparr>)"
    show ?thesis unfolding eq
      by (rule trace_inv_quiet[OF i t]) (auto simp: answered_def builds_def)
  next
    assume eq: "?s' = respond ?rid (HTTPNotFound not_found_body)
            (release ?rid key (emit ?rid (Build key)
              (acquire ?rid key (get_lock key (s\<lparr>next_rid := Suc ?rid\<rparr>)))))"
    show ?thesis unfolding eq
      by (rule trace_inv_not_found[OF i t, where key=key and resp="HTTPNotFound not_found_body"])
        (simp_all add: builds_def)
  next
    fix g assume eq: "?s' =
          (emit ?rid (Build key)
              (acquire ?rid key (get_lock key (s\<lparr>next_rid := Suc ?rid\<rparr>))))
            \<lparr>inflight := inflight s @
               [(?rid, \<lparr>scan_key = key, scan_guild = g, scan_acc = [], scan_started = clock s\<rparr>)]\<rparr>"
    show ?thesis unfolding eq
      by (rule trace_inv_started[OF i t, where key=key and ?t0.0="clock s"])
        (simp_all add: builds_def)
  qed
qed

lemma trace_inv_resume:
  assumes i: "loop_inv s" and t: "trace_inv s"
    and k: "\<And>sc s0. k sc s0 = s \<or>
      (inflight (k sc s0) = inflight s0 \<and> trace (k sc s0) = trace s0 @ [(rid, Release (scan_key sc))] \<and>
       next_rid (k sc s0) = next_rid s0 \<and> (\<exists>resp. responses (k sc s0) = responses s0 @ [(rid, resp)]))"
  shows "trace_inv (resume rid s k)"
proof (cases "map_of (inflight s) rid")
  case None
  then show ?thesis using t by (simp add: resume_def)
next
  case (Some sc)
  let ?s0 = "s\<lparr>inflight := drop_rid rid (inflight s)\<rparr>"
  have r: "resume rid s k = k sc ?s0" using Some by (simp add: resume_def)
  from k[of sc ?s0] show ?thesis
  proof
    assume "k sc ?s0 = s" then show ?thesis using t r by simp
  next
    assume a: "inflight (k sc ?s0) = inflight ?s0 \<and> trace (k sc ?s0) = trace ?s0 @ [(rid, Release (scan_key sc))] \<and>
       next_rid (k sc ?s0) = next_rid ?s0 \<and> (\<exists>resp. responses (k sc ?s0) = responses ?s0 @ [(rid, resp)])"
    then obtain resp where rs: "responses (k sc ?s0) = responses s @ [(rid, resp)]" by auto
    have b: "builds (k sc ?s0) = filter (\<lambda>(r, _). r \<noteq> rid) (builds s)"
      using a builds_drop[of rid s] by (simp add: builds_def)
    show ?thesis unfolding r
      by (rule trace_inv_finish[OF i t map_of_builds[OF Some] _ b _ rs]) (use a in auto)
  qed
qed

lemma trace_inv_step:
  assumes i: "loop_inv s" and t: "trace_inv s"
  shows "trace_inv (step F s e)"
proof (cases e)
  case (Request key) then show ?thesis using trace_inv_request[OF i t] by simp
next
  case (Yield rid m)
  show ?thesis
  proof (cases "map_of (inflight s) rid")
    case None then show ?thesis using t Yield by simp
  next
    case (Some sc)
    have d: "distinct (map fst (inflight s))" using i by (simp add: loop_inv_def map_fst_builds)
    show ?thesis unfolding Yield
      by (rule trace_inv_refl[OF i t]) (simp_all add: Some builds_yield[OF d Some])
  qed
next
  case (Exhausted rid)
  show ?thesis unfolding Exhausted
    by (auto intro!: trace_inv_resume[OF i t] simp: build_done_def Let_def)
next
  case (UpstreamError rid)
  show ?thesis unfolding UpstreamError
    by (auto intro!: trace_inv_resume[OF i t] simp: build_failed_def)
next
  case (UpstreamTimeout rid)
  show ?thesis unfolding UpstreamTimeout
    by (auto intro!: trace_inv_resume[OF i t] simp: build_timeout_def)
next
  case (Deadline rid)
  show ?thesis unfolding Deadline
    by (auto intro!: trace_inv_resume[OF i t] simp: build_timeout_def)
next
  case (Tick d)
  show ?thesis unfolding Tick
    by (rule trace_inv_refl[OF i t]) (simp_all add: builds_def)
next
  case (Gateway b)
  show ?thesis unfolding Gateway
    by (rule trace_inv_refl[OF i t]) (simp_all add: builds_def)
qed

lemma invs_run: "loop_inv s \<Longrightarrow> trace_inv s \<Longrightarrow> trace_inv (run F s evs)"
  unfolding run_def by (induction evs arbitrary: s) (simp_all add: inv_step trace_inv_step)

lemma trace_inv_reachable: "trace_inv (run F (init bt c b t0) evs)"
  by (rule invs_run[OF inv_init trace_inv_init])

section \<open>What an event changes\<close>

lemma resume_shape:
  assumes "map_of (inflight s) rid = None \<Longrightarrow> P s"
    and "\<And>sc. map_of (inflight s) rid = Some sc \<Longrightarrow> P (k sc (s\<lparr>inflight := drop_rid rid (inflight s)\<rparr>))"
  shows "P (resume rid s k)"
  using assms by (cases "map_of (inflight s) rid") (simp_all add: resume_def)

lemma step_kind_finish:
  assumes "map_of (inflight s) rid = Some sc"
    and "inflight s' = drop_rid rid (inflight s)" "next_rid s' = next_rid s"
    and "\<And>k. k \<noteq> scan_key sc \<Longrightarrow> cache s' k = cache s k"
  shows "step_kind s s'"
proof -
  have "builds s' = filter (\<lambda>(r, _). r \<noteq> rid) (builds s)"
    using assms(2) builds_drop[of rid s] by (simp add: builds_def)
  with assms(1,4) have "\<exists>rid sc. map_of (inflight s) rid = Some sc \<and>
         builds s' = filter (\<lambda>(r, _). r \<noteq> rid) (builds s) \<and>
         (\<forall>k. k \<noteq> scan_key sc \<longrightarrow> cache s' k = cache s k)"
    by blast
  then show ?thesis unfolding step_kind_def using assms(3) by simp
qed

lemma step_kind_refl: "step_kind s s"
  by (simp add: step_kind_def)

lemma step_kind_resume:
  assumes "\<And>sc s0. k sc s0 = s \<or>
      (inflight (k sc s0) = inflight s0 \<and> next_rid (k sc s0) = next_rid s0 \<and>
       (\<forall>key. key \<noteq> scan_key sc \<longrightarrow> cache (k sc s0) key = cache s0 key))"
  shows "step_kind s (resume rid s k)"
proof (rule resume_shape)
  show "step_kind s s" by (rule step_kind_refl)
next
  fix sc assume m: "map_of (inflight s) rid = Some sc"
  let ?s0 = "s\<lparr>inflight := drop_rid rid (inflight s)\<rparr>"
  from assms[of sc ?s0] show "step_kind s (k sc ?s0)"
  proof
    assume "k sc ?s0 = s" then show ?thesis by (simp add: step_kind_refl)
  next
    assume "inflight (k sc ?s0) = inflight ?s0 \<and> next_rid (k sc ?s0) = next_rid ?s0 \<and>
       (\<forall>key. key \<noteq> scan_key sc \<longrightarrow> cache (k sc ?s0) key = cache ?s0 key)"
    then show ?thesis by (intro step_kind_finish[OF m]) auto
  qed
qed

lemma step_kind_step:
  assumes i: "loop_inv s"
  shows "step_kind s (step F s e)"
proof (cases e)
  case (Request key)
  from request_outcome[of s key F] show ?thesis unfolding Request
    by (elim disjE exE conjE) (auto simp: step_kind_def builds_def)
next
  case (Yield rid m)
  show ?thesis
  proof (cases "map_of (inflight s) rid")
    case None then show ?thesis using Yield by (simp add: step_kind_def)
  next
    case (Some sc)
    have d: "distinct (map fst (inflight s))" using i by (simp add: loop_inv_def map_fst_builds)
    show ?thesis unfolding Yield using Some builds_yield[OF d Some]
      by (simp add: step_kind_def)
  qed
next
  case (Exhausted rid)
  show ?thesis unfolding Exhausted step.simps
    by (rule step_kind_resume) (simp add: build_done_def Let_def)
next
  case (UpstreamError rid)
  show ?thesis unfolding UpstreamError step.simps
    by (rule step_kind_resume) (simp add: build_failed_def)
next
  case (UpstreamTimeout rid)
  show ?thesis unfolding UpstreamTimeout step.simps
    by (rule step_kind_resume) (simp add: build_timeout_def)
next
  case (Deadline rid)
  show ?thesis unfolding Deadline step.simps
    by (rule step_kind_resume) (simp add: build_timeout_def)
next
  case (Tick d)
  then show ?thesis by (simp add: step_kind_def builds_def)
next
  case (Gateway b)
  then show ?thesis by (simp add: step_kind_def builds_def)
qed

lemma next_rid_step: "loop_inv s \<Longrightarrow> next_rid s \<le> next_rid (step F s e)"
  using step_kind_step[of s F e] by (simp add: step_kind_def)

lemma builds_step_old:
  assumes i: "loop_inv s" and m: "(rid, k, t) \<in> set (builds (step F s e))" and lt: "rid < next_rid s"
  shows "(rid, k, t) \<in> set (builds s)"
  using step_kind_step[OF i, of F e] m lt unfolding step_kind_def by auto

lemma cache_step_building:
  assumes i: "loop_inv s" and m: "(rid, k, t) \<in> set (builds s)"
    and m': "(rid, k, t) \<in> set (builds (step F s e))"
  shows "cache (step F s e) k = cache s k"
proof -
  from step_kind_step[OF i, of F e]
  consider "cache (step F s e) = cache s"
    | rid' sc where "map_of (inflight s) rid' = Some sc"
        "builds (step F s e) = filter (\<lambda>(r, _). r \<noteq> rid') (builds s)"
        "\<forall>k. k \<noteq> scan_key sc \<longrightarrow> cache (step F s e) k = cache s k"
    unfolding step_kind_def by blast
  then show ?thesis
  proof cases
    case 1 then show ?thesis by simp
  next
    case 2
    have ne: "rid \<noteq> rid'" using m' 2(2) by auto
    have "(rid', scan_key sc, scan_started sc) \<in> set (builds s)" by (rule map_of_builds[OF 2(1)])
    with m ne have "k \<noteq> scan_key sc" using i unfolding loop_inv_def by blast
    then show ?thesis using 2(3) by simp
  qed
qed

lemma builds_run_old:
  "loop_inv s \<Longrightarrow> rid < next_rid s \<Longrightarrow> (rid, k, t) \<in> set (builds (run F s evs)) \<Longrightarrow>
   (rid, k, t) \<in> set (builds s)"
proof (induction evs arbitrary: s)
  case Nil
  then show ?case by (simp add: run_def)
next
  case (Cons e evs)
  have r: "run F s (e # evs) = run F (step F s e) evs" by (simp add: run_def)
  have "rid < next_rid (step F s e)" using next_rid_step[OF Cons.prems(1), of F e] Cons.prems(2) by simp
  then have "(rid, k, t) \<in> set (builds (step F s e))"
    using Cons.IH[OF inv_step[OF Cons.prems(1)]] Cons.prems(3) unfolding r by blast
  then show ?case using builds_step_old[OF Cons.prems(1)] Cons.prems(2) by blast
qed

lemma cache_run_building:
  "loop_inv s \<Longrightarrow> (rid, k, t) \<in> set (builds s) \<Longrightarrow> (rid, k, t) \<in> set (builds (run F s evs)) \<Longrightarrow>
   cache (run F s evs) k = cache s k"
proof (induction evs arbitrary: s)
  case Nil
  then show ?case by (simp add: run_def)
next
  case (Cons e evs)
  have r: "run F s (e # evs) = run F (step F s e) evs" by (simp add: run_def)
  have lt: "rid < next_rid s" using Cons.prems(1,2) unfolding loop_inv_def by fastforce
  then have "rid < next_rid (step F s e)" using next_rid_step[OF Cons.prems(1), of F e] by simp
  then have m': "(rid, k, t) \<in> set (builds (step F s e))"
    using builds_run_old[OF inv_step[OF Cons.prems(1)]] Cons.prems(3) unfolding r by blast
  have "cache (run F (step F s e) evs) k = cache (step F s e) k"
    using Cons.IH[OF inv_step[OF Cons.prems(1)] m'] Cons.prems(3) unfolding r by blast
  then show ?case unfolding r using cache_step_building[OF Cons.prems(1,2) m'] by simp
qed

section \<open>Ways out of a scan\<close>

lemma builders_iff: "rid \<in> set (builders key s) \<longleftrightarrow> (\<exists>t. (rid, key, t) \<in> set (builds s))"
  by (force simp: builders_builds)

lemma holds_builders: "holds rid key s = (if rid \<in> set (builders key s) then 1 else 0)"
  by (simp add: holds_def builders_iff)

lemma exit_releases:
  assumes m: "map_of (inflight s) rid = Some sc"
    and e: "e = Exhausted rid \<or> e = UpstreamError rid \<or> e = UpstreamTimeout rid \<or>
            (e = Deadline rid \<and> deadline s sc \<le> clock s)"
  shows "locks (step F s e) = (locks s)(scan_key sc := Some False) \<and>
         trace (step F s e) = trace s @ [(rid, Release (scan_key sc))] \<and>
         inflight (step F s e) = drop_rid rid (inflight s) \<and>
         (\<exists>resp. responses (step F s e) = responses s @ [(rid, resp)])"
  using e m by (auto simp: resume_def build_done_def build_failed_def build_timeout_def Let_def)

section \<open>Timers and the clock\<close>

lemma clock_step:
  "clock (step F s e) = (case e of Tick d \<Rightarrow> if 0 \<le> d then clock s + d else clock s | _ \<Rightarrow> clock s)"
  by (cases e)
    (auto simp: handler_def handler_miss_def handler_locked_def start_build_def
      build_payload_begin_def resume_def build_done_def build_timeout_def build_failed_def
      Let_def split: option.splits)

lemma clock_quiet:
  assumes "\<And>d. e \<noteq> Tick d"
  shows "clock (step F s e) = clock s"
  using clock_step[of F s e] assms by (cases e) (auto simp del: step.simps)

lemma timer_inv_init: "timer_inv late (init bt c b t0) []"
  by (simp add: timer_inv_def builds_def init_def)

lemma timer_inv_kind:
  assumes i: "loop_inv s" and t: "timer_inv late s fired" and l: "0 \<le> late"
    and k: "step_kind s s'"
    and c: "clock s' = clock s" "build_timeout_seconds s' = build_timeout_seconds s"
  shows "timer_inv late s' fired"
proof -
  have n: "next_rid s \<le> next_rid s'" using k by (simp add: step_kind_def)
  have f: "\<forall>r \<in> set fired. r < next_rid s" using t by (simp add: timer_inv_def)
  have five: "5 \<le> build_timeout_seconds s" using i by (simp add: loop_inv_def)
  have old: "rid \<notin> set fired \<and> clock s \<le> t0 + real_of_int (build_timeout_seconds s) + late"
    if "(rid, key, t0) \<in> set (builds s)" for rid key t0
    using t that unfolding timer_inv_def by blast
  have new: "next_rid s \<notin> set fired \<and> clock s \<le> clock s + real_of_int (build_timeout_seconds s) + late"
    using f five l by auto
  have sub: "(rid, key, t0) \<in> set (builds s) \<or> (rid = next_rid s \<and> t0 = clock s)"
    if "(rid, key, t0) \<in> set (builds s')" for rid key t0
    using k that unfolding step_kind_def by auto
  have "rid \<notin> set fired \<and> clock s' \<le> t0 + real_of_int (build_timeout_seconds s') + late"
    if "(rid, key, t0) \<in> set (builds s')" for rid key t0
    using sub[OF that] old new unfolding c by blast
  moreover have "\<forall>r \<in> set fired. r < next_rid s'" using f n by auto
  ultimately show ?thesis unfolding timer_inv_def by blast
qed

lemma timer_inv_tick:
  assumes t: "timer_inv late s fired" and ok: "tick_ok late s fired (Tick d)"
  shows "timer_inv late (step F s (Tick d)) fired"
  using assms
  by (auto simp: timer_inv_def tick_ok_def builds_def list_all_iff deadline_def)

lemma timer_inv_fire:
  assumes i: "loop_inv s" and t: "timer_inv late s fired"
    and m: "map_of (inflight s) rid = Some sc" and d: "deadline s sc \<le> clock s"
  shows "timer_inv late (step F s (Deadline rid)) (rid # fired)"
proof -
  let ?s' = "step F s (Deadline rid)"
  have "inflight ?s' = drop_rid rid (inflight s)"
    using exit_releases[OF m, of "Deadline rid" F] d by simp
  then have b: "builds ?s' = filter (\<lambda>(r, _). r \<noteq> rid) (builds s)"
    using builds_drop[of rid s] by (simp add: builds_def)
  have c: "clock ?s' = clock s" by (rule clock_quiet) simp
  have o: "build_timeout_seconds ?s' = build_timeout_seconds s" by (simp only: step_settings)
  have n: "next_rid s \<le> next_rid ?s'" by (rule next_rid_step[OF i])
  have r: "rid < next_rid s" using map_of_builds[OF m] i unfolding loop_inv_def by blast
  have "rid' \<notin> set (rid # fired) \<and> clock ?s' \<le> t0 + real_of_int (build_timeout_seconds ?s') + late"
    if "(rid', key, t0) \<in> set (builds ?s')" for rid' key t0
    using that t unfolding b c o timer_inv_def by auto
  moreover have "\<forall>r \<in> set (rid # fired). r < next_rid ?s'"
    using t r n unfolding timer_inv_def by auto
  ultimately show ?thesis unfolding timer_inv_def by blast
qed

lemma timer_inv_step:
  assumes i: "loop_inv s" and t: "timer_inv late s fired" and l: "0 \<le> late"
    and ok: "tick_ok late s fired e"
  shows "timer_inv late (step F s e) (fire s fired e)"
proof -
  have quiet: "timer_inv late (step F s e) fired" if "\<And>d. e \<noteq> Tick d"
  proof (rule timer_inv_kind[OF i t l step_kind_step[OF i]])
    show "clock (step F s e) = clock s" using that by (rule clock_quiet)
    show "build_timeout_seconds (step F s e) = build_timeout_seconds s" by (simp only: step_settings)
  qed
  show ?thesis
  proof (cases e)
    case (Tick d)
    then show ?thesis using timer_inv_tick[OF t ok[unfolded Tick], of F] by (simp add: fire_def)
  next
    case (Deadline rid)
    show ?thesis
    proof (cases "\<exists>sc. map_of (inflight s) rid = Some sc \<and> deadline s sc \<le> clock s")
      case True
      then obtain sc where m: "map_of (inflight s) rid = Some sc" and d: "deadline s sc \<le> clock s"
        by blast
      have "fire s fired e = rid # fired" using m d Deadline by (simp add: fire_def)
      then show ?thesis using timer_inv_fire[OF i t m d, of F] Deadline by simp
    next
      case False
      then have "fire s fired e = fired" using Deadline
        by (auto simp: fire_def split: option.splits)
      then show ?thesis using quiet Deadline by simp
    qed
  qed (use quiet in \<open>simp_all add: fire_def\<close>)
qed

lemma timer_inv_run:
  "loop_inv s \<Longrightarrow> timer_inv late s fired \<Longrightarrow> 0 \<le> late \<Longrightarrow> punctual late F s fired evs \<Longrightarrow>
   \<exists>fired'. timer_inv late (run F s evs) fired'"
proof (induction evs arbitrary: s fired)
  case Nil
  then show ?case unfolding run_def by auto
next
  case (Cons e evs)
  have "\<exists>fired'. timer_inv late (run F (step F s e) evs) fired'"
    using Cons.prems
    by (intro Cons.IH[of "step F s e" "fire s fired e"]) (simp_all add: inv_step timer_inv_step)
  then show ?case by (simp add: run_def)
qed

lemma punctual_bound:
  assumes l: "0 \<le> late" and p: "punctual late F (init bt c b t0) [] evs"
    and m: "(rid, sc) \<in> set (inflight (run F (init bt c b t0) evs))"
  shows "clock (run F (init bt c b t0) evs) \<le> deadline (run F (init bt c b t0) evs) sc + late"
proof -
  obtain fired where "timer_inv late (run F (init bt c b t0) evs) fired"
    using timer_inv_run[OF inv_init timer_inv_init l p] by blast
  moreover have "(rid, scan_key sc, scan_started sc) \<in> set (builds (run F (init bt c b t0) evs))"
    using m by (force simp: builds_def)
  ultimately show ?thesis unfolding timer_inv_def deadline_def by blast
qed

section \<open>The matches of a scan\<close>

lemma map_of_set_rid:
  "map_of (set_rid r v xs) rid =
     (if rid = r then (case map_of xs rid of None \<Rightarrow> None | Some _ \<Rightarrow> Some v) else map_of xs rid)"
  by (induction xs) (auto simp: set_rid_def)

lemma map_of_drop_rid:
  "map_of (drop_rid r xs) rid = (if rid = r then None else map_of xs rid)"
  by (induction xs) (auto simp: drop_rid_def)

lemma map_of_snoc_old: "map_of xs rid = Some v \<Longrightarrow> map_of (xs @ [(r, w)]) rid = Some v"
  by (simp add: map_add_Some_iff)

lemma resume_inflight:
  assumes "\<And>sc s0. k sc s0 = s \<or> inflight (k sc s0) = inflight s0"
    and "map_of (inflight s) rid = Some sc" "map_of (inflight (resume r s k)) rid = Some sc'"
  shows "sc' = sc"
proof (cases "map_of (inflight s) r")
  case None
  then show ?thesis using assms(2,3) by (simp add: resume_def)
next
  case (Some scr)
  from assms(1)[of scr "s\<lparr>inflight := drop_rid r (inflight s)\<rparr>"] show ?thesis
    using assms(2,3) Some by (auto simp: resume_def map_of_drop_rid split: if_splits)
qed

lemma acc_step:
  assumes m: "map_of (inflight s) rid = Some sc"
    and m': "map_of (inflight (step F s e)) rid = Some sc'"
  shows "sc' = sc\<lparr>scan_acc := foldl (\<lambda>acc m. scan_item F (scan_key sc) m acc) (scan_acc sc) (yielded rid [e])\<rparr>"
proof (cases e)
  case (Request key)
  from request_outcome[of s key F] m' m show ?thesis unfolding Request
    by (elim disjE exE conjE) (auto simp: map_of_snoc_old)
next
  case (Yield r m0)
  then show ?thesis using m m'
    by (cases "map_of (inflight s) r") (auto simp: map_of_set_rid scan_yield_def split: if_splits)
next
  case (Exhausted r)
  have "sc' = sc"
    by (rule resume_inflight[OF _ m m'[unfolded Exhausted step.simps]]) (simp add: build_done_def Let_def)
  then show ?thesis using Exhausted by simp
next
  case (UpstreamError r)
  have "sc' = sc"
    by (rule resume_inflight[OF _ m m'[unfolded UpstreamError step.simps]]) (simp add: build_failed_def)
  then show ?thesis using UpstreamError by simp
next
  case (UpstreamTimeout r)
  have "sc' = sc"
    by (rule resume_inflight[OF _ m m'[unfolded UpstreamTimeout step.simps]]) (simp add: build_timeout_def)
  then show ?thesis using UpstreamTimeout by simp
next
  case (Deadline r)
  have "sc' = sc"
    by (rule resume_inflight[OF _ m m'[unfolded Deadline step.simps]]) (simp add: build_timeout_def)
  then show ?thesis using Deadline by simp
next
  case (Tick d)
  then show ?thesis using m m' by (auto split: if_splits)
next
  case (Gateway b)
  then show ?thesis using m m' by simp
qed

lemma inflight_builds:
  "distinct (map fst (inflight s)) \<Longrightarrow>
   (\<exists>sc. map_of (inflight s) rid = Some sc) \<longleftrightarrow> (\<exists>k t. (rid, k, t) \<in> set (builds s))"
  by (force simp: builds_def map_of_eq_Some_iff)

lemma inv_distinct: "loop_inv s \<Longrightarrow> distinct (map fst (inflight s))"
  by (simp add: loop_inv_def map_fst_builds)

lemma acc_run:
  "loop_inv s \<Longrightarrow> map_of (inflight s) rid = Some sc \<Longrightarrow>
   map_of (inflight (run F s evs)) rid = Some sc' \<Longrightarrow>
   sc' = sc\<lparr>scan_acc := foldl (\<lambda>acc m. scan_item F (scan_key sc) m acc) (scan_acc sc) (yielded rid evs)\<rparr>"
proof (induction evs arbitrary: s sc)
  case Nil
  then show ?case by (simp add: run_def)
next
  case (Cons e evs)
  have r: "run F s (e # evs) = run F (step F s e) evs" by (simp add: run_def)
  have i': "loop_inv (step F s e)" by (rule inv_step[OF Cons.prems(1)])
  have lt: "rid < next_rid s"
    using Cons.prems(1) map_of_builds[OF Cons.prems(2)] unfolding loop_inv_def by fastforce
  then have lt': "rid < next_rid (step F s e)" using next_rid_step[OF Cons.prems(1), of F e] by simp
  obtain k t where "(rid, k, t) \<in> set (builds (run F (step F s e) evs))"
    using map_of_builds[OF Cons.prems(3)[unfolded r]] by blast
  then have "(rid, k, t) \<in> set (builds (step F s e))" by (rule builds_run_old[OF i' lt'])
  then obtain sc1 where m1: "map_of (inflight (step F s e)) rid = Some sc1"
    using inflight_builds[OF inv_distinct[OF i'], of rid] by blast
  have s1: "sc1 = sc\<lparr>scan_acc := foldl (\<lambda>acc m. scan_item F (scan_key sc) m acc) (scan_acc sc) (yielded rid [e])\<rparr>"
    by (rule acc_step[OF Cons.prems(2) m1])
  have "sc' = sc1\<lparr>scan_acc := foldl (\<lambda>acc m. scan_item F (scan_key sc1) m acc) (scan_acc sc1) (yielded rid evs)\<rparr>"
    by (rule Cons.IH[OF i' m1 Cons.prems(3)[unfolded r]])
  then show ?case unfolding s1 by (cases e) auto
qed

lemma rm_scan_fold:
  "foldl (\<lambda>acc m. rm_scan_item key m acc) acc ms =
     acc @ map (\<lambda>m. str_int (member_id m)) (filter (\<lambda>m. snd key \<in> set (member_roles m)) ms)"
  by (induction ms arbitrary: acc) (simp_all add: rm_scan_item_def)

lemma started_scan:
  assumes i: "loop_inv s0"
    and a: "s = run F (step F s0 (Request key)) evs"
    and m: "map_of (inflight s) (next_rid s0) = Some sc"
  shows "scan_key sc = key \<and>
         scan_acc sc = foldl (\<lambda>acc m. scan_item F key m acc) [] (yielded (next_rid s0) evs)"
proof -
  let ?rid = "next_rid s0"
  let ?s1 = "step F s0 (Request key)"
  have i1: "loop_inv ?s1" by (rule inv_step[OF i])
  have fresh: "map_of (inflight s0) ?rid = None"
    using inflight_builds[OF inv_distinct[OF i], of ?rid] fresh_rid[OF i, of ?rid] by auto
  obtain k t where "(?rid, k, t) \<in> set (builds s)" using map_of_builds[OF m] by blast
  moreover have n1: "?rid < next_rid ?s1"
    using request_outcome[of s0 key F] by (elim disjE exE conjE; simp)
  ultimately have "(?rid, k, t) \<in> set (builds ?s1)"
    using builds_run_old[OF i1, of ?rid k t F evs] unfolding a by simp
  then obtain sc1 where m1: "map_of (inflight ?s1) ?rid = Some sc1"
    using inflight_builds[OF inv_distinct[OF i1], of ?rid] by blast
  have s1: "scan_key sc1 = key \<and> scan_acc sc1 = []"
    using request_outcome[of s0 key F] m1 fresh
    by (elim disjE exE conjE) (auto simp: map_add_Some_iff)
  from acc_run[OF i1 m1 m[unfolded a]] s1 show ?thesis by simp
qed

section \<open>The order of the log\<close>

lemma lock_order_append:
  "lock_order key (tr @ es) = foldl (lock_step key) (lock_order key tr) es"
  by (simp add: lock_order_def)

lemma order_inv_init: "order_inv (init bt c b t0)"
  by (simp add: order_inv_def lock_order_def holder_def builders_def init_def)

lemma builders_cong: "inflight s' = inflight s \<Longrightarrow> builders key s' = builders key s"
  by (simp add: builders_def)

lemma holder_cong: "builds s' = builds s \<Longrightarrow> holder key s' = holder key s"
  by (simp add: holder_def builders_builds)

lemma order_inv_quiet:
  "order_inv s \<Longrightarrow> trace s' = trace s \<Longrightarrow> builds s' = builds s \<Longrightarrow> order_inv s'"
  using holder_cong[of s' s] by (simp add: order_inv_def)

lemma holder_free:
  assumes "loop_inv s" "\<not> locked key s"
  shows "holder key s = None" "builders key s = []"
  using inv_builders[OF assms(1), of key] assms(2) by (simp_all add: holder_def)

lemma order_inv_not_found:
  assumes i: "loop_inv s" and o: "order_inv s" and l: "\<not> locked key s"
    and tr: "trace s' = trace s @ [(rid, Acquire key), (rid, Build key), (rid, Release key)]"
    and b: "builds s' = builds s"
  shows "order_inv s'"
  unfolding order_inv_def
proof
  fix k
  have old: "lock_order k (trace s) = Some (holder k s)" using o by (simp add: order_inv_def)
  have h: "holder k s' = holder k s" by (rule holder_cong[OF b])
  show "lock_order k (trace s') = Some (holder k s')"
  proof (cases "k = key")
    case True
    have "holder k s = None" using holder_free(1)[OF i l] True by simp
    then show ?thesis unfolding tr lock_order_append old h using True by simp
  next
    case False
    then show ?thesis unfolding tr lock_order_append old h by simp
  qed
qed

lemma order_inv_started:
  assumes i: "loop_inv s" and o: "order_inv s" and l: "\<not> locked key s"
    and tr: "trace s' = trace s @ [(rid, Acquire key), (rid, Build key)]"
    and b: "builds s' = builds s @ [(rid, key, t)]"
  shows "order_inv s'"
  unfolding order_inv_def
proof
  fix k
  have old: "lock_order k (trace s) = Some (holder k s)" using o by (simp add: order_inv_def)
  show "lock_order k (trace s') = Some (holder k s')"
  proof (cases "k = key")
    case True
    have h0: "holder k s = None" using holder_free(1)[OF i l] True by simp
    have "builders k s' = [rid]"
      using holder_free(2)[OF i l] True unfolding builders_builds b by simp
    then have h: "holder k s' = Some rid" by (simp add: holder_def)
    show ?thesis unfolding tr lock_order_append old h h0 using True by simp
  next
    case False
    have "builders k s' = builders k s" using False unfolding builders_builds b by simp
    then have h: "holder k s' = holder k s" by (simp add: holder_def)
    show ?thesis unfolding tr lock_order_append old h using False by simp
  qed
qed

lemma filter_filter_absorb:
  "(\<And>x. x \<in> set xs \<Longrightarrow> P x \<Longrightarrow> Q x) \<Longrightarrow> filter P (filter Q xs) = filter P xs"
  by (induction xs) auto

lemma filter_filter_none:
  "(\<And>x. x \<in> set xs \<Longrightarrow> P x \<Longrightarrow> \<not> Q x) \<Longrightarrow> filter P (filter Q xs) = []"
  by (induction xs) auto

lemma order_inv_finish:
  assumes i: "loop_inv s" and o: "order_inv s"
    and m: "map_of (inflight s) rid = Some sc"
    and tr: "trace s' = trace s @ [(rid, Release (scan_key sc))]"
    and b: "builds s' = filter (\<lambda>(r, _). r \<noteq> rid) (builds s)"
  shows "order_inv s'"
  unfolding order_inv_def
proof
  fix k
  have old: "lock_order k (trace s) = Some (holder k s)" using o by (simp add: order_inv_def)
  have mem: "(rid, scan_key sc, scan_started sc) \<in> set (builds s)" by (rule map_of_builds[OF m])
  have d: "distinct (map fst (builds s))" using i by (simp add: loop_inv_def)
  have key: "k' = scan_key sc" if "(rid, k', t) \<in> set (builds s)" for k' t
    using eq_key_imp_eq_value[OF d mem that] by simp
  have lk: "locked (scan_key sc) s" using i mem unfolding loop_inv_def by fastforce
  have in1: "rid \<in> set (builders (scan_key sc) s)" using mem by (auto simp: builders_iff)
  have "length (builders (scan_key sc) s) = 1" using inv_builders[OF i, of "scan_key sc"] lk by simp
  with in1 have b1: "builders (scan_key sc) s = [rid]"
    by (cases "builders (scan_key sc) s") auto
  have f: "filter (\<lambda>(r, k', t). k' = k) (filter (\<lambda>(r, _). r \<noteq> rid) (builds s)) =
      (if k = scan_key sc then [] else filter (\<lambda>(r, k', t). k' = k) (builds s))"
  proof (cases "k = scan_key sc")
    case True
    have one: "\<And>r k' t. (r, k', t) \<in> set (builds s) \<Longrightarrow> k' = scan_key sc \<Longrightarrow> r = rid"
      using i mem unfolding loop_inv_def by blast
    have "filter (\<lambda>(r, k', t). k' = k) (filter (\<lambda>(r, _). r \<noteq> rid) (builds s)) = []"
      by (rule filter_filter_none) (use one True in auto)
    then show ?thesis using True by simp
  next
    case False
    have "filter (\<lambda>(r, k', t). k' = k) (filter (\<lambda>(r, _). r \<noteq> rid) (builds s)) =
        filter (\<lambda>(r, k', t). k' = k) (builds s)"
      by (rule filter_filter_absorb) (use key False in auto)
    then show ?thesis using False by simp
  qed
  have h: "holder k s' = (if k = scan_key sc then None else holder k s)"
    unfolding holder_def builders_builds b f by simp
  show "lock_order k (trace s') = Some (holder k s')"
  proof (cases "k = scan_key sc")
    case True
    have h1: "holder k s = Some rid" using b1 True by (simp add: holder_def)
    show ?thesis unfolding tr lock_order_append old h h1 using True by simp
  next
    case False
    then show ?thesis unfolding tr lock_order_append old h by simp
  qed
qed

lemma order_inv_resume:
  assumes i: "loop_inv s" and o: "order_inv s"
    and k: "\<And>sc s0. k sc s0 = s \<or>
      (inflight (k sc s0) = inflight s0 \<and> trace (k sc s0) = trace s0 @ [(rid, Release (scan_key sc))])"
  shows "order_inv (resume rid s k)"
proof (rule resume_shape)
  show "order_inv s" by (rule o)
next
  fix sc assume m: "map_of (inflight s) rid = Some sc"
  let ?s0 = "s\<lparr>inflight := drop_rid rid (inflight s)\<rparr>"
  from k[of sc ?s0] show "order_inv (k sc ?s0)"
  proof
    assume "k sc ?s0 = s" then show ?thesis using o by simp
  next
    assume a: "inflight (k sc ?s0) = inflight ?s0 \<and> trace (k sc ?s0) = trace ?s0 @ [(rid, Release (scan_key sc))]"
    have b: "builds (k sc ?s0) = filter (\<lambda>(r, _). r \<noteq> rid) (builds s)"
      using a builds_drop[of rid s] by (simp add: builds_def)
    show ?thesis by (rule order_inv_finish[OF i o m _ b]) (use a in simp)
  qed
qed

lemma order_inv_step:
  assumes i: "loop_inv s" and o: "order_inv s"
  shows "order_inv (step F s e)"
proof (cases e)
  case (Request key)
  let ?rid = "next_rid s"
  let ?s' = "step F s (Request key)"
  from request_outcome[of s key F] show ?thesis unfolding Request
  proof (elim disjE exE conjE)
    fix e assume eq: "?s' = respond ?rid (JsonResponse (payload e)) (s\<lparr>next_rid := Suc ?rid\<rparr>)"
    show "order_inv ?s'" unfolding eq
      by (rule order_inv_quiet[OF o]) (simp_all add: builds_def)
  next
    assume eq: "?s' = respond ?rid (HTTPAccepted (building_body F key)) (s\<lparr>next_rid := Suc ?rid\<rparr>)"
    show "order_inv ?s'" unfolding eq
      by (rule order_inv_quiet[OF o]) (simp_all add: builds_def)
  next
    assume l: "\<not> locked key s" and eq: "?s' = respond ?rid (HTTPNotFound not_found_body)
            (release ?rid key (emit ?rid (Build key)
              (acquire ?rid key (get_lock key (s\<lparr>next_rid := Suc ?rid\<rparr>)))))"
    show "order_inv ?s'" unfolding eq
      by (rule order_inv_not_found[OF i o l, where rid="?rid"]) (simp_all add: builds_def)
  next
    fix g assume l: "\<not> locked key s" and eq: "?s' =
          (emit ?rid (Build key)
              (acquire ?rid key (get_lock key (s\<lparr>next_rid := Suc ?rid\<rparr>))))
            \<lparr>inflight := inflight s @
               [(?rid, \<lparr>scan_key = key, scan_guild = g, scan_acc = [], scan_started = clock s\<rparr>)]\<rparr>"
    show "order_inv ?s'" unfolding eq
      by (rule order_inv_started[OF i o l, where rid="?rid" and t="clock s"]) (simp_all add: builds_def)
  qed
next
  case (Yield rid m)
  show ?thesis
  proof (cases "map_of (inflight s) rid")
    case None then show ?thesis using o Yield by simp
  next
    case (Some sc)
    show ?thesis unfolding Yield
      by (rule order_inv_quiet[OF o]) (simp_all add: Some builds_yield[OF inv_distinct[OF i] Some])
  qed
next
  case (Exhausted rid)
  show ?thesis unfolding Exhausted step.simps
    by (rule order_inv_resume[OF i o]) (simp add: build_done_def Let_def)
next
  case (UpstreamError rid)
  show ?thesis unfolding UpstreamError step.simps
    by (rule order_inv_resume[OF i o]) (simp add: build_failed_def)
next
  case (UpstreamTimeout rid)
  show ?thesis unfolding UpstreamTimeout step.simps
    by (rule order_inv_resume[OF i o]) (simp add: build_timeout_def)
next
  case (Deadline rid)
  show ?thesis unfolding Deadline step.simps
    by (rule order_inv_resume[OF i o]) (simp add: build_timeout_def)
next
  case (Tick d)
  show ?thesis unfolding Tick
    by (rule order_inv_quiet[OF o]) (simp_all add: builds_def)
next
  case (Gateway b)
  show ?thesis unfolding Gateway
    by (rule order_inv_quiet[OF o]) (simp_all add: builds_def)
qed

lemma order_inv_run: "loop_inv s \<Longrightarrow> order_inv s \<Longrightarrow> order_inv (run F s evs)"
  unfolding run_def by (induction evs arbitrary: s) (simp_all add: inv_step order_inv_step)

lemma order_inv_reachable: "order_inv (run F (init bt c b t0) evs)"
  by (rule order_inv_run[OF inv_init order_inv_init])

section \<open>Example states\<close>

lemma str_int_7 [simp]:
  "str_int 7 = ''7''" "str_int 3 = ''3''" "str_int 1 = ''1''" "str_int 42 = ''42''" "str_int 43 = ''43''"
  by (simp_all add: str_int_def str_nat.simps digit_char_def)

lemmas eval_defs =
  run_def init_def handler_def handler_miss_def handler_locked_def start_build_def
  build_payload_begin_def resume_def build_done_def build_timeout_def build_failed_def
  scan_yield_def set_rid_def drop_rid_def locked_def get_lock_def deadline_def cache_valid_def
  Let_def

lemmas ex_defs =
  role_members_def rm_scan_item_def rm_assemble_def rm_building_body_def ex_bot_def ex_guild_def
  ex_member_def ex_other_def ex_payload_def no_bot_def not_found_body_def

lemma ex_cached_fields:
  "cache ex_cached = (\<lambda>_. None)((7, 3) := Some \<lparr>ts = 0, payload = ex_payload\<rparr>)"
  "locks ex_cached = (\<lambda>_. None)((7, 3) := Some False)"
  "clock ex_cached = 0" "cache_seconds ex_cached = 10" "build_timeout_seconds ex_cached = 5"
  "next_rid ex_cached = 1" "inflight ex_cached = []" "bot_of ex_cached = ex_bot"
  "responses ex_cached = [(0, JsonResponse ex_payload)]"
  "trace ex_cached = [(0, Acquire (7, 3)), (0, Build (7, 3)), (0, Release (7, 3))]"
  by (simp_all add: ex_cached_def run_def init_def handler_def handler_miss_def handler_locked_def
      start_build_def build_payload_begin_def role_members_def ex_bot_def ex_guild_def
      ex_member_def ex_payload_def rm_scan_item_def rm_assemble_def resume_def build_done_def
      scan_yield_def set_rid_def drop_rid_def locked_def get_lock_def Let_def)

lemma ex_expired_fields:
  "cache ex_expired = (\<lambda>_. None)((7, 3) := Some \<lparr>ts = 0, payload = ex_payload\<rparr>)"
  "locks ex_expired = (\<lambda>_. None)((7, 3) := Some False)"
  "clock ex_expired = 10" "cache_seconds ex_expired = 10" "build_timeout_seconds ex_expired = 5"
  "next_rid ex_expired = 1" "inflight ex_expired = []" "bot_of ex_expired = ex_bot"
  "responses ex_expired = [(0, JsonResponse ex_payload)]"
  "trace ex_expired = [(0, Acquire (7, 3)), (0, Build (7, 3)), (0, Release (7, 3))]"
  by (simp_all add: ex_expired_def run_def ex_cached_fields)

lemma ex_building_fields:
  "cache ex_building = (\<lambda>_. None)((7, 3) := Some \<lparr>ts = 0, payload = ex_payload\<rparr>)"
  "locks ex_building = (\<lambda>_. None)((7, 3) := Some True)"
  "clock ex_building = 10" "cache_seconds ex_building = 10" "build_timeout_seconds ex_building = 5"
  "next_rid ex_building = 2"
  "inflight ex_building =
     [(1, \<lparr>scan_key = (7, 3), scan_guild = 0, scan_acc = [''43''], scan_started = 10\<rparr>)]"
  "bot_of ex_building = ex_bot"
  "responses ex_building = [(0, JsonResponse ex_payload)]"
  "trace ex_building =
     [(0, Acquire (7, 3)), (0, Build (7, 3)), (0, Release (7, 3)),
      (1, Acquire (7, 3)), (1, Build (7, 3))]"
  by (simp_all add: ex_building_def ex_expired_fields eval_defs ex_defs)

lemma ex_stalled_fields:
  "cache ex_stalled = (\<lambda>_. None)((7, 3) := Some \<lparr>ts = 0, payload = ex_payload\<rparr>)"
  "locks ex_stalled = (\<lambda>_. None)((7, 3) := Some True)"
  "clock ex_stalled = 15" "cache_seconds ex_stalled = 10" "build_timeout_seconds ex_stalled = 5"
  "next_rid ex_stalled = 2"
  "inflight ex_stalled =
     [(1, \<lparr>scan_key = (7, 3), scan_guild = 0, scan_acc = [''43''], scan_started = 10\<rparr>)]"
  "bot_of ex_stalled = ex_bot"
  "responses ex_stalled = [(0, JsonResponse ex_payload)]"
  "trace ex_stalled =
     [(0, Acquire (7, 3)), (0, Build (7, 3)), (0, Release (7, 3)),
      (1, Acquire (7, 3)), (1, Build (7, 3))]"
  by (simp_all add: ex_stalled_def ex_building_fields eval_defs ex_defs)

lemma ex_paths_fields:
  "locks ex_paths = (\<lambda>_. None)((7, 3) := Some False, (8, 1) := Some False)"
  "inflight ex_paths = []"
  "responses ex_paths =
     [(0, JsonResponse ex_payload), (1, HTTPAccepted (rm_building_body (7, 3))),
      (2, HTTPNotFound not_found_body)]"
  "trace ex_paths =
     [(0, Acquire (7, 3)), (0, Build (7, 3)), (0, Release (7, 3)),
      (1, Acquire (7, 3)), (1, Build (7, 3)), (1, Release (7, 3)),
      (2, Acquire (8, 1)), (2, Build (8, 1)), (2, Release (8, 1))]"
  by (simp_all add: ex_paths_def ex_stalled_fields eval_defs role_members_def ex_bot_def)

lemma ex_gone_fields:
  "cache ex_gone = (\<lambda>_. None)((7, 3) := Some \<lparr>ts = 0, payload = ex_payload\<rparr>)"
  "locks ex_gone = (\<lambda>_. None)((7, 3) := Some False)"
  "clock ex_gone = 11" "cache_seconds ex_gone = 10" "build_timeout_seconds ex_gone = 5"
  "next_rid ex_gone = 1" "inflight ex_gone = []" "bot_of ex_gone = no_bot"
  "responses ex_gone = [(0, JsonResponse ex_payload)]"
  "trace ex_gone = [(0, Acquire (7, 3)), (0, Build (7, 3)), (0, Release (7, 3))]"
  by (simp_all add: ex_gone_def run_def ex_cached_fields)

lemma ex_scanned_fields:
  "inflight ex_scanned =
     [(1, \<lparr>scan_key = (7, 1), scan_guild = 0, scan_acc = [''42''], scan_started = 0\<rparr>)]"
  "bot_of ex_scanned = ex_bot" "clock ex_scanned = 1"
  "responses ex_scanned = [(0, JsonResponse ex_payload)]"
  by (simp_all add: ex_scanned_def ex_cached_fields eval_defs ex_defs ex_other_def)

lemma ex_cached_run:
  "ex_cached = run role_members (init ex_bot 1 1 0) [Request (7, 3), Yield 0 ex_member, Exhausted 0]"
  by (simp add: ex_cached_def)

lemma ex_expired_run:
  "ex_expired = run role_members (init ex_bot 1 1 0) [Request (7, 3), Yield 0 ex_member, Exhausted 0, Tick 10]"
  unfolding ex_expired_def ex_cached_def run_append[symmetric] by simp

lemma ex_building_run:
  "ex_building =
     run role_members (init ex_bot 1 1 0)
       [Request (7, 3), Yield 0 ex_member, Exhausted 0, Tick 10, Request (7, 3), Yield 1 ex_other]"
  unfolding ex_building_def ex_expired_def ex_cached_def run_append[symmetric] by simp

lemma ex_stalled_run:
  "ex_stalled = run role_members (step role_members ex_expired (Request (7, 3))) [Yield 1 ex_other, Tick 5]"
  by (simp add: ex_stalled_def ex_building_def run_def)

lemma ex_building_step_run:
  "ex_building = run role_members (step role_members ex_expired (Request (7, 3))) [Yield 1 ex_other]"
  by (simp add: ex_building_def run_def)

lemma ex_stalled_init_run:
  "ex_stalled =
     run role_members (init ex_bot 1 1 0)
       [Request (7, 3), Yield 0 ex_member, Exhausted 0, Tick 10, Request (7, 3), Yield 1 ex_other,
        Tick 5]"
  unfolding ex_stalled_def ex_building_run run_append[symmetric] by simp

text \<open>The schedule of \<open>ex_stalled\<close> is punctual: its last step takes the clock to the
  deadline of the suspended scan, not beyond.\<close>

lemma ex_stalled_punctual:
  "punctual 0 role_members (init ex_bot 1 1 0) []
     [Request (7, 3), Yield 0 ex_member, Exhausted 0, Tick 10, Request (7, 3), Yield 1 ex_other,
      Tick 5]"
  by (simp add: tick_ok_def fire_def eval_defs ex_defs)

text \<open>A timer that the loop delivers late: six seconds after the first request its scan is
  still suspended and the lock still held, one second beyond the deadline. This schedule
  is punctual up to one second, not up to zero.\<close>

lemma ex_late:
  "locked (7, 3) (run role_members (init ex_bot 1 1 0) [Request (7, 3), Tick 6]) \<and>
   clock (run role_members (init ex_bot 1 1 0) [Request (7, 3), Tick 6]) = 6 \<and>
   \<not> punctual 0 role_members (init ex_bot 1 1 0) [] [Request (7, 3), Tick 6] \<and>
   punctual 1 role_members (init ex_bot 1 1 0) [] [Request (7, 3), Tick 6]"
  by (simp add: tick_ok_def fire_def eval_defs ex_defs)

lemma ex_paths_run:
  "ex_paths =
     run role_members (init ex_bot 1 1 0)
       [Request (7, 3), Yield 0 ex_member, Exhausted 0, Tick 10, Request (7, 3), Yield 1 ex_other,
        Tick 5, Deadline 1, Request (8, 1)]"
  unfolding ex_paths_def ex_stalled_def ex_building_run run_append[symmetric] by simp

text \<open>The boosters feature on the same bot: a second request during the scan is answered
  202, the scan keeps the member who boosts, and a third request is served from the cache.\<close>

lemma ex_boosters:
  "responses (run subscriptions (init ex_bot 300 25 0)
      [Request 7, Yield 0 ex_member, Request 7, Yield 0 ex_other, Exhausted 0, Request 7]) =
     [(1, HTTPAccepted (JDict [(''status'', JStr ''building_cache''), (''guild_id'', JStr ''7'')])),
      (0, JsonResponse
        (JDict
          [(''guild_id'', JStr ''7''), (''guild_name'', JStr ''Lab''), (''count'', JInt 1),
           (''boosters'',
            JList
              [JDict
                [(''discord_user_id'', JStr ''43''), (''username'', JStr ''bo''),
                 (''display_name'', JStr ''Bo''),
                 (''premium_since'', JStr ''2024-01-01T00:00:00'')]])])),
      (2, JsonResponse
        (JDict
          [(''guild_id'', JStr ''7''), (''guild_name'', JStr ''Lab''), (''count'', JInt 1),
           (''boosters'',
            JList
              [JDict
                [(''discord_user_id'', JStr ''43''), (''username'', JStr ''bo''),
                 (''display_name'', JStr ''Bo''),
                 (''premium_since'', JStr ''2024-01-01T00:00:00'')]])]))]"
  by (simp add: eval_defs subscriptions_def sub_scan_item_def sub_assemble_def sub_building_body_def
      ex_bot_def ex_guild_def ex_member_def ex_other_def)

section \<open>Single flight\<close>

text \<open>
  Claim C1. In every state the event loop can reach, the number of requests that are
  inside the build phase for a key is 1 when the lock of the key is held and 0 when it is
  not: at no instant are two builds for the same key in progress. The log of effects is
  in order on the key: the lock is acquired only when nobody holds it, the builder is
  called and the lock released only by the request that holds it, and the holder at the
  end of the log is the request inside the build phase. So the builds for a key follow
  one another in the order of the acquisitions of its lock.
\<close>

theorem single_flight:
  "length (builders key (run F (init bt c b t0) evs)) =
     (if locked key (run F (init bt c b t0) evs) then 1 else 0) \<and>
   lock_order key (trace (run F (init bt c b t0) evs)) =
     Some (holder key (run F (init bt c b t0) evs))"
  using inv_builders[OF inv_reachable, of key F bt c b t0 evs] order_inv_reachable[of F bt c b t0 evs]
  by (simp add: order_inv_def)

theorem single_flight_witness:
  "length (builders (7, 3) ex_building) = 1 \<and> locked (7, 3) ex_building \<and>
   lock_order (7, 3) (trace ex_building) = Some (Some 1)"
  using single_flight[of "(7, 3)" role_members ex_bot 1 1 0
      "[Request (7, 3), Yield 0 ex_member, Exhausted 0, Tick 10, Request (7, 3), Yield 1 ex_other]"]
  unfolding ex_building_run[symmetric]
  by (simp add: locked_def ex_building_fields holder_def builders_def)

text \<open>
  Claim C3. In every reachable state, a request for a key whose lock is held is answered
  202 within its first atomic stretch: the step appends the response and does nothing
  else, so the request is not suspended, not queued, and touches neither lock nor cache.
\<close>

theorem busy_immediate:
  assumes "s = run F (init bt c b t0) evs" and "locked key s"
  shows "step F s (Request key) =
           respond (next_rid s) (HTTPAccepted (building_body F key))
             (s\<lparr>next_rid := Suc (next_rid s)\<rparr>)"
proof -
  have "loop_inv s" using assms(1) inv_reachable by simp
  then have "miss key s" using assms(2) by (rule inv_locked_miss)
  then show ?thesis using assms(2) by (simp add: handler_busy)
qed

theorem busy_immediate_witness:
  "locked (7, 3) ex_building \<and>
   step role_members ex_building (Request (7, 3)) =
     respond 2 (HTTPAccepted (rm_building_body (7, 3))) (ex_building\<lparr>next_rid := 3\<rparr>)"
proof -
  have l: "locked (7, 3) ex_building" by (simp add: locked_def ex_building_fields)
  from busy_immediate[OF ex_building_run l] l show ?thesis
    by (simp add: ex_building_fields role_members_def)
qed

section \<open>Timeout\<close>

text \<open>
  Claim C2. Take a request for \<open>key\<close> that arrives in a reachable state \<open>s0\<close>, any
  events after it, and let its build time out while it is still scanning: its timer goes
  off once the deadline has come, or the upstream raises a \<^verbatim>\<open>TimeoutError\<close>. Then the
  entry of \<open>key\<close> is what it was before the request arrived, the timeout itself writes no
  entry at all, the response is the 202 body, which does not depend on the matches
  collected, and the suspended scan with its matches is dropped; the lock is released.
\<close>

theorem timeout_keeps_cache:
  assumes r: "s0 = run F (init bt c b t0) evs0"
    and a: "s = run F (step F s0 (Request key)) evs"
    and m: "map_of (inflight s) (next_rid s0) = Some sc"
    and e: "(e = Deadline (next_rid s0) \<and> deadline s sc \<le> clock s) \<or>
            e = UpstreamTimeout (next_rid s0)"
  shows "cache (step F s e) key = cache s0 key \<and>
         cache (step F s e) = cache s \<and>
         responses (step F s e) =
           responses s @ [(next_rid s0, HTTPAccepted (building_body F key))] \<and>
         inflight (step F s e) = drop_rid (next_rid s0) (inflight s) \<and>
         locks (step F s e) = (locks s)(key := Some False)"
proof -
  let ?rid = "next_rid s0"
  let ?s1 = "step F s0 (Request key)"
  have i0: "loop_inv s0" unfolding r by (rule inv_reachable)
  have i1: "loop_inv ?s1" by (rule inv_step[OF i0])
  have m2: "(?rid, scan_key sc, scan_started sc) \<in> set (builds s)" by (rule map_of_builds[OF m])
  have fresh: "(?rid, k, t) \<notin> set (builds s0)" for k t by (rule fresh_rid[OF i0]) simp
  from request_outcome[of s0 key F]
  have n1: "next_rid ?s1 = Suc ?rid"
    and b1: "builds ?s1 = builds s0 \<or> builds ?s1 = builds s0 @ [(?rid, key, clock s0)]"
    by (elim disjE exE conjE; simp add: builds_def)+
  have m1: "(?rid, scan_key sc, scan_started sc) \<in> set (builds ?s1)"
    using builds_run_old[OF i1, of ?rid _ _ F evs] m2 n1 unfolding a by simp
  with b1 fresh have k: "scan_key sc = key" by auto
  have "cache s key = cache ?s1 key"
    using cache_run_building[OF i1 m1, of F evs] m2 unfolding a k by simp
  then have c: "cache s key = cache s0 key" by (simp only: request_cache)
  have st: "step F s e =
      build_timeout F ?rid sc (s\<lparr>inflight := drop_rid ?rid (inflight s)\<rparr>)"
    using m e by (auto simp: resume_def)
  show ?thesis unfolding st using c k by (simp add: build_timeout_def)
qed

theorem timeout_keeps_cache_witness:
  "cache (step role_members ex_stalled (Deadline 1)) (7, 3) = cache ex_expired (7, 3) \<and>
   cache ex_expired (7, 3) = Some \<lparr>ts = 0, payload = ex_payload\<rparr> \<and>
   responses (step role_members ex_stalled (Deadline 1)) =
     responses ex_stalled @ [(1, HTTPAccepted (rm_building_body (7, 3)))] \<and>
   inflight (step role_members ex_stalled (Deadline 1)) = [] \<and>
   cache (step role_members ex_building (UpstreamTimeout 1)) (7, 3) = cache ex_expired (7, 3) \<and>
   responses (step role_members ex_building (UpstreamTimeout 1)) =
     responses ex_building @ [(1, HTTPAccepted (rm_building_body (7, 3)))] \<and>
   inflight (step role_members ex_building (UpstreamTimeout 1)) = []"
proof -
  let ?sc = "\<lparr>scan_key = (7, 3), scan_guild = 0, scan_acc = [''43''], scan_started = 10\<rparr>"
  have m: "map_of (inflight ex_stalled) (next_rid ex_expired) = Some ?sc"
    by (simp add: ex_stalled_fields ex_expired_fields)
  have d: "(Deadline 1 = Deadline (next_rid ex_expired) \<and> deadline ex_stalled ?sc \<le> clock ex_stalled) \<or>
      Deadline 1 = UpstreamTimeout (next_rid ex_expired)"
    by (simp add: deadline_def ex_stalled_fields ex_expired_fields)
  have m': "map_of (inflight ex_building) (next_rid ex_expired) = Some ?sc"
    by (simp add: ex_building_fields ex_expired_fields)
  have u: "(UpstreamTimeout 1 = Deadline (next_rid ex_expired) \<and>
        deadline ex_building ?sc \<le> clock ex_building) \<or>
      UpstreamTimeout 1 = UpstreamTimeout (next_rid ex_expired)"
    by (simp add: ex_expired_fields)
  from timeout_keeps_cache[OF ex_expired_run ex_stalled_run m d]
    timeout_keeps_cache[OF ex_expired_run ex_building_step_run m' u]
  show ?thesis
    by (simp add: ex_expired_fields ex_stalled_fields ex_building_fields role_members_def drop_rid_def)
qed

section \<open>Release of the lock\<close>

text \<open>
  Claim C4. In every reachable state: a request has acquired the lock of a key at most
  once, and it has released it exactly as often as it acquired it unless it is still
  inside the build phase, where it has not released it yet; a request that has been
  answered is not inside the build phase. A held lock belongs to a suspended scan that
  started no later than now; and when the schedule of events is punctual up to \<open>late\<close>
  seconds, the clock is at most \<open>late\<close> seconds beyond the deadline of that scan: with
  timers that go off as their deadline comes (\<open>late = 0\<close>), no lock is held for more than
  \<open>build_timeout_seconds\<close>. Each way out of a scan (the sequence ends, the upstream fails,
  the upstream times out, the timer goes off) logs one release, leaves the lock free and
  answers the request; so does the way out by a guild that is not found, after the one
  acquisition.
\<close>

theorem lock_released_once:
  assumes r: "s = run F (init bt c b t0) evs"
  shows "acquired rid key s \<le> 1 \<and>
         released rid key s = (if rid \<in> set (builders key s) then 0 else acquired rid key s) \<and>
         (answered rid s \<longrightarrow> rid \<notin> set (builders key s)) \<and>
         (locked key s \<longrightarrow>
            (\<exists>r sc. (r, sc) \<in> set (inflight s) \<and> scan_key sc = key \<and>
               scan_started sc \<le> clock s \<and>
               (0 \<le> late \<and> punctual late F (init bt c b t0) [] evs \<longrightarrow>
                  clock s \<le> deadline s sc + late))) \<and>
         (\<forall>sc e. map_of (inflight s) rid = Some sc \<and>
               (e = Exhausted rid \<or> e = UpstreamError rid \<or> e = UpstreamTimeout rid \<or>
                (e = Deadline rid \<and> deadline s sc \<le> clock s)) \<longrightarrow>
            \<not> locked (scan_key sc) (step F s e) \<and> answered rid (step F s e) \<and>
            trace (step F s e) = trace s @ [(rid, Release (scan_key sc))]) \<and>
         (miss key s \<and> \<not> locked key s \<and> get_guild (bot_of s) (guild_id_of F key) = None \<longrightarrow>
            \<not> locked key (step F s (Request key)) \<and>
            answered (next_rid s) (step F s (Request key)) \<and>
            trace (step F s (Request key)) =
              trace s @ [(next_rid s, Acquire key), (next_rid s, Build key), (next_rid s, Release key)])"
proof -
  have i: "loop_inv s" unfolding r by (rule inv_reachable)
  have t: "trace_inv s" unfolding r by (rule trace_inv_reachable)
  have bal: "balanced s rid key" using t unfolding trace_inv_def by blast
  have p1: "acquired rid key s \<le> 1" using bal by (simp add: balanced_def)
  have p2: "released rid key s = (if rid \<in> set (builders key s) then 0 else acquired rid key s)"
    using bal unfolding balanced_def holds_builders by (auto split: if_splits)
  have p3: "answered rid s \<longrightarrow> rid \<notin> set (builders key s)"
    using t unfolding trace_inv_def builders_iff by blast
  have p4: "locked key s \<longrightarrow>
            (\<exists>r sc. (r, sc) \<in> set (inflight s) \<and> scan_key sc = key \<and>
               scan_started sc \<le> clock s \<and>
               (0 \<le> late \<and> punctual late F (init bt c b t0) [] evs \<longrightarrow>
                  clock s \<le> deadline s sc + late))"
  proof
    assume "locked key s"
    then obtain r' t' where m: "(r', key, t') \<in> set (builds s)"
      using i unfolding loop_inv_def by blast
    then have le: "t' \<le> clock s" using i unfolding loop_inv_def by auto
    from m obtain sc where sc: "(r', sc) \<in> set (inflight s)" "scan_key sc = key" "scan_started sc = t'"
      by (auto simp: builds_def)
    have "clock s \<le> deadline s sc + late"
      if "0 \<le> late \<and> punctual late F (init bt c b t0) [] evs"
      using punctual_bound[of late F bt c b t0 evs r' sc] that sc(1) unfolding r by blast
    with sc le show "\<exists>r sc. (r, sc) \<in> set (inflight s) \<and> scan_key sc = key \<and>
               scan_started sc \<le> clock s \<and>
               (0 \<le> late \<and> punctual late F (init bt c b t0) [] evs \<longrightarrow>
                  clock s \<le> deadline s sc + late)"
      by blast
  qed
  have p5: "\<not> locked (scan_key sc) (step F s e) \<and> answered rid (step F s e) \<and>
            trace (step F s e) = trace s @ [(rid, Release (scan_key sc))]"
    if "map_of (inflight s) rid = Some sc \<and>
               (e = Exhausted rid \<or> e = UpstreamError rid \<or> e = UpstreamTimeout rid \<or>
                (e = Deadline rid \<and> deadline s sc \<le> clock s))" for sc e
    using exit_releases[of s rid sc e F] that by (auto simp: locked_def answered_def)
  have p6: "miss key s \<and> \<not> locked key s \<and> get_guild (bot_of s) (guild_id_of F key) = None \<longrightarrow>
            \<not> locked key (step F s (Request key)) \<and>
            answered (next_rid s) (step F s (Request key)) \<and>
            trace (step F s (Request key)) =
              trace s @ [(next_rid s, Acquire key), (next_rid s, Build key), (next_rid s, Release key)]"
    using request_outcome[of s key F] by (auto simp: miss_def locked_def answered_def)
  show ?thesis using p1 p2 p3 p4 p5 p6 by blast
qed

theorem lock_released_once_witness:
  "released 0 (7, 3) ex_paths = 1 \<and> released 1 (7, 3) ex_paths = 1 \<and>
   released 2 (8, 1) ex_paths = 1 \<and> \<not> locked (7, 3) ex_paths \<and> \<not> locked (8, 1) ex_paths \<and>
   locked (7, 3) ex_stalled \<and> clock ex_stalled = 15 \<and>
   clock ex_stalled \<le>
     deadline ex_stalled \<lparr>scan_key = (7, 3), scan_guild = 0, scan_acc = [''43''], scan_started = 10\<rparr>"
proof -
  have a: "released 0 (7, 3) ex_paths = 1 \<and> released 1 (7, 3) ex_paths = 1 \<and>
      released 2 (8, 1) ex_paths = 1 \<and> \<not> locked (7, 3) ex_paths \<and> \<not> locked (8, 1) ex_paths"
    using lock_released_once[OF ex_paths_run, of 0 "(7, 3)"]
      lock_released_once[OF ex_paths_run, of 1 "(7, 3)"]
      lock_released_once[OF ex_paths_run, of 2 "(8, 1)"]
    by (simp add: ex_paths_fields acquired_def builders_def locked_def)
  have b: "locked (7, 3) ex_stalled \<and> clock ex_stalled = 15 \<and>
      clock ex_stalled \<le>
        deadline ex_stalled \<lparr>scan_key = (7, 3), scan_guild = 0, scan_acc = [''43''], scan_started = 10\<rparr>"
    using lock_released_once[OF ex_stalled_init_run, of 1 "(7, 3)" 0] ex_stalled_punctual
    by (simp add: ex_stalled_fields locked_def)
  from a b show ?thesis by simp
qed

section \<open>Freshness\<close>

text \<open>
  Claim C5, as the spec states it, ends with: a request that arrives after expiry
  triggers a fresh build. In \<open>ex_building\<close> the entry of \<open>(7, 3)\<close> was stored at time 0,
  the TTL is 10 and the clock reads 10, so the entry has expired; another request holds
  the lock. The next request for \<open>(7, 3)\<close> is answered 202 and triggers nothing: no
  effect is logged and no scan is started.
\<close>

theorem expired_busy_counterexample:
  "cache ex_building (7, 3) = Some \<lparr>ts = 0, payload = ex_payload\<rparr> \<and>
   clock ex_building = 10 \<and> cache_seconds ex_building = 10 \<and>
   responses (step role_members ex_building (Request (7, 3))) =
     responses ex_building @ [(2, HTTPAccepted (rm_building_body (7, 3)))] \<and>
   trace (step role_members ex_building (Request (7, 3))) = trace ex_building \<and>
   inflight (step role_members ex_building (Request (7, 3))) = inflight ex_building"
  by (simp add: ex_building_fields eval_defs ex_defs)

text \<open>
  Claim C5, amended. A request is answered from the cache iff the cache holds an entry
  for its key with \<open>clock - ts < cache_seconds\<close> (strictly); the response is then the
  payload of that entry, so a payload served from the cache is younger than the TTL.
  A request that finds an expired entry never serves it: when the lock of the key is
  held it is answered 202 and has no effect; when the lock is free it acquires the lock
  and calls the builder.
\<close>

theorem cache_served_iff_fresh:
  "((\<exists>p. responses (step F s (Request key)) = responses s @ [(next_rid s, JsonResponse p)]) \<longleftrightarrow>
      (\<exists>e. cache s key = Some e \<and> clock s - ts e < real_of_int (cache_seconds s))) \<and>
   (\<forall>e. cache s key = Some e \<and> clock s - ts e < real_of_int (cache_seconds s) \<longrightarrow>
      step F s (Request key) =
        respond (next_rid s) (JsonResponse (payload e)) (s\<lparr>next_rid := Suc (next_rid s)\<rparr>)) \<and>
   (\<forall>e. cache s key = Some e \<and> real_of_int (cache_seconds s) \<le> clock s - ts e \<longrightarrow>
      (locked key s \<longrightarrow>
         responses (step F s (Request key)) =
           responses s @ [(next_rid s, HTTPAccepted (building_body F key))] \<and>
         trace (step F s (Request key)) = trace s) \<and>
      (\<not> locked key s \<longrightarrow>
         (\<exists>rest. trace (step F s (Request key)) =
            trace s @ (next_rid s, Acquire key) # (next_rid s, Build key) # rest)))"
  using request_outcome[of s key F]
  by (auto simp: miss_def cache_valid_def)

theorem cache_served_iff_fresh_witness:
  "step role_members ex_cached (Request (7, 3)) =
     respond 1 (JsonResponse ex_payload) (ex_cached\<lparr>next_rid := 2\<rparr>) \<and>
   (\<exists>rest. trace (step role_members ex_expired (Request (7, 3))) =
      trace ex_expired @ (1, Acquire (7, 3)) # (1, Build (7, 3)) # rest) \<and>
   responses (step role_members ex_building (Request (7, 3))) =
     responses ex_building @ [(2, HTTPAccepted (rm_building_body (7, 3)))]"
  using cache_served_iff_fresh[of role_members ex_cached "(7, 3)"]
    cache_served_iff_fresh[of role_members ex_expired "(7, 3)"]
    cache_served_iff_fresh[of role_members ex_building "(7, 3)"]
  by (simp add: ex_cached_fields ex_expired_fields ex_building_fields locked_def role_members_def)

section \<open>Entity not found\<close>

text \<open>
  Claim C6, as the spec states it, says that a request whose guild cannot be resolved is
  answered with the not-found error and never acquires the lock of its key. The handler
  resolves the guild inside \<^verbatim>\<open>async with lock\<close>: on a fresh instance whose bot sees
  no guild, the request for key \<open>(7, 3)\<close> is answered 404 and its effects are an
  acquisition of the lock of \<open>(7, 3)\<close>, the call of the builder and the release.
\<close>

theorem not_found_lock_counterexample:
  "responses (step role_members (init no_bot 300 25 0) (Request (7, 3))) =
     [(0, HTTPNotFound not_found_body)] \<and>
   trace (step role_members (init no_bot 300 25 0) (Request (7, 3))) =
     [(0, Acquire (7, 3)), (0, Build (7, 3)), (0, Release (7, 3))]"
  by (simp add: eval_defs ex_defs)

text \<open>
  Claim C6, amended. A request that is answered with the not-found error found the lock
  of its key free, acquired it before the guild was resolved, called the builder and
  released the lock again: these are its only effects and the key is left unlocked.
\<close>

theorem not_found_releases_lock:
  assumes "responses (step F s (Request key)) = responses s @ [(next_rid s, HTTPNotFound not_found_body)]"
  shows "trace (step F s (Request key)) =
           trace s @ [(next_rid s, Acquire key), (next_rid s, Build key), (next_rid s, Release key)] \<and>
         locks (step F s (Request key)) = (locks s)(key := Some False) \<and>
         \<not> locked key s"
  using assms request_outcome[of s key F] by auto

theorem not_found_releases_lock_witness:
  "responses (step role_members ex_gone (Request (7, 3))) =
     responses ex_gone @ [(next_rid ex_gone, HTTPNotFound not_found_body)] \<and>
   trace (step role_members ex_gone (Request (7, 3))) =
     trace ex_gone @ [(1, Acquire (7, 3)), (1, Build (7, 3)), (1, Release (7, 3))] \<and>
   locks (step role_members ex_gone (Request (7, 3))) (7, 3) = Some False"
proof -
  have h: "responses (step role_members ex_gone (Request (7, 3))) =
     responses ex_gone @ [(next_rid ex_gone, HTTPNotFound not_found_body)]"
    by (simp add: ex_gone_fields eval_defs ex_defs)
  from not_found_releases_lock[OF h] h show ?thesis by (simp add: ex_gone_fields)
qed

section \<open>The second cache read\<close>

text \<open>
  Claim C7. A handler that finds the lock free takes it and enters the body of
  \<^verbatim>\<open>async with lock\<close>, which reads the cache again before anything else. If the
  entry of the key is valid there, its payload is the response, the lock is released,
  and the builder is not called: the only effect logged is the release, no scan is
  started and the cache is not written.
\<close>

theorem recheck_serves_cache:
  "(\<not> locked key s \<longrightarrow>
      handler_miss F rid key s = handler_locked F rid key (acquire rid key (get_lock key s))) \<and>
   (cache s key = Some e \<and> cache_valid s e \<longrightarrow>
      handler_locked F rid key s = respond rid (JsonResponse (payload e)) (release rid key s) \<and>
      responses (handler_locked F rid key s) = responses s @ [(rid, JsonResponse (payload e))] \<and>
      trace (handler_locked F rid key s) = trace s @ [(rid, Release key)] \<and>
      locks (handler_locked F rid key s) key = Some False \<and>
      inflight (handler_locked F rid key s) = inflight s \<and>
      cache (handler_locked F rid key s) = cache s)"
  by (simp add: handler_miss_def handler_locked_def Let_def)

theorem recheck_serves_cache_witness:
  "handler_locked role_members 1 (7, 3) (acquire 1 (7, 3) ex_cached) =
     respond 1 (JsonResponse ex_payload) (release 1 (7, 3) (acquire 1 (7, 3) ex_cached)) \<and>
   trace (handler_locked role_members 1 (7, 3) (acquire 1 (7, 3) ex_cached)) =
     trace ex_cached @ [(1, Acquire (7, 3)), (1, Release (7, 3))]"
  using recheck_serves_cache[of "(7, 3)" "acquire 1 (7, 3) ex_cached" role_members 1
      "\<lparr>ts = 0, payload = ex_payload\<rparr>"]
  by (simp add: ex_cached_fields cache_valid_def)

section \<open>Configuration\<close>

text \<open>
  Claim C8. The TTL a feature instance uses is \<open>max 10\<close> of the configured value and its
  build deadline \<open>max 5\<close> of the configured value; \<^verbatim>\<open>__init__\<close> sets both and no event
  changes them afterwards. A configured TTL of 1 gives 10.
\<close>

theorem settings_floored:
  "cache_seconds (run F (init bt c b t0) evs) = max 10 c \<and>
   build_timeout_seconds (run F (init bt c b t0) evs) = max 5 b \<and>
   cache_seconds (run F (init bt 1 b t0) evs) = 10"
  by (simp add: run_settings init_def)

theorem settings_floored_witness:
  "cache_seconds (run role_members (init ex_bot 1 1 0) [Request (7, 3), Tick 2]) = 10 \<and>
   build_timeout_seconds (run role_members (init ex_bot 1 1 0) [Request (7, 3), Tick 2]) = 5"
  using settings_floored[of role_members ex_bot 1 1 0 "[Request (7, 3), Tick 2]"] by simp

section \<open>The cache after a not-found error\<close>

text \<open>
  Claim C9. A request that is answered with the not-found error leaves the cache as it
  was: no entry is created for its key and an entry that is there, valid or not, stays.
  The guild lookup did fail, and no scan was started.
\<close>

theorem not_found_keeps_cache:
  assumes "responses (step F s (Request key)) = responses s @ [(next_rid s, HTTPNotFound not_found_body)]"
  shows "cache (step F s (Request key)) = cache s \<and>
         get_guild (bot_of s) (guild_id_of F key) = None \<and>
         inflight (step F s (Request key)) = inflight s"
  using assms request_outcome[of s key F] by auto

theorem not_found_keeps_cache_witness:
  "responses (step role_members ex_gone (Request (7, 3))) =
     responses ex_gone @ [(next_rid ex_gone, HTTPNotFound not_found_body)] \<and>
   cache (step role_members ex_gone (Request (7, 3))) (7, 3) =
     Some \<lparr>ts = 0, payload = ex_payload\<rparr>"
proof -
  have h: "responses (step role_members ex_gone (Request (7, 3))) =
     responses ex_gone @ [(next_rid ex_gone, HTTPNotFound not_found_body)]"
    by (simp add: ex_gone_fields eval_defs ex_defs)
  from not_found_keeps_cache[OF h] h show ?thesis by (simp add: ex_gone_fields)
qed

section \<open>Role name\<close>

text \<open>
  Claim C10. Take a role-members request for \<open>key\<close> that arrives in a reachable state,
  any events after it, and let its scan end while the role cache of its guild does not
  know the role. Then the build succeeds: the entry stored for \<open>key\<close> and the response
  carry the payload whose \<open>role_name\<close> is \<open>unknown\<close>, whose \<open>members\<close> are the ids of
  the members the upstream yielded to this scan that have the role, in order, and whose
  \<open>count\<close> is their number.
\<close>

theorem unknown_role_cached:
  assumes r: "s0 = run role_members (init bt c b t0) evs0"
    and a: "s = run role_members (step role_members s0 (Request key)) evs"
    and m: "map_of (inflight s) (next_rid s0) = Some sc"
    and g: "g = guild_obj (bot_of s) (scan_guild sc)"
    and role: "get_role g (snd key) = None"
    and ms: "matches =
       map (\<lambda>m. str_int (member_id m))
         (filter (\<lambda>m. snd key \<in> set (member_roles m)) (yielded (next_rid s0) evs))"
    and p: "p =
       JDict
         [(''guild_id'', JStr (str_int (guild_ident g))),
          (''guild_name'', JStr (guild_name g)),
          (''role_id'', JStr (str_int (snd key))),
          (''role_name'', JStr ''unknown''),
          (''count'', JInt (int (length matches))),
          (''members'', JList (map (\<lambda>mid. JDict [(''discord_user_id'', JStr mid)]) matches))]"
  shows "cache (step role_members s (Exhausted (next_rid s0))) key = Some \<lparr>ts = clock s, payload = p\<rparr> \<and>
         responses (step role_members s (Exhausted (next_rid s0))) =
           responses s @ [(next_rid s0, JsonResponse p)]"
proof -
  have i0: "loop_inv s0" unfolding r by (rule inv_reachable)
  from started_scan[OF i0 a m]
  have k: "scan_key sc = key" and acc: "scan_acc sc = matches"
    by (simp_all add: role_members_def rm_scan_fold ms)
  have "assemble role_members key g (scan_acc sc) = p"
    unfolding p acc using role by (simp add: role_members_def rm_assemble_def)
  then show ?thesis using m k g
    by (simp add: resume_def build_done_def Let_def)
qed

theorem unknown_role_cached_witness:
  "cache (step role_members ex_scanned (Exhausted 1)) (7, 1) =
     Some \<lparr>ts = 1, payload =
       JDict
         [(''guild_id'', JStr ''7''), (''guild_name'', JStr ''Lab''), (''role_id'', JStr ''1''),
          (''role_name'', JStr ''unknown''), (''count'', JInt 1),
          (''members'', JList [JDict [(''discord_user_id'', JStr ''42'')]])]\<rparr>"
proof -
  have m: "map_of (inflight ex_scanned) (next_rid ex_cached) =
     Some \<lparr>scan_key = (7, 1), scan_guild = 0, scan_acc = [''42''], scan_started = 0\<rparr>"
    by (simp add: ex_scanned_fields ex_cached_fields)
  have role: "get_role ex_guild (snd (7::int, 1::int)) = None" by (simp add: ex_guild_def)
  have g: "ex_guild = guild_obj (bot_of ex_scanned)
      (scan_guild \<lparr>scan_key = (7::int, 1::int), scan_guild = 0, scan_acc = [''42''], scan_started = 0\<rparr>)"
    by (simp add: ex_scanned_fields ex_bot_def)
  from unknown_role_cached[OF ex_cached_run ex_scanned_def m g role refl refl]
  show ?thesis
    by (simp add: ex_scanned_fields ex_cached_fields ex_bot_def ex_guild_def ex_member_def
        ex_other_def str_int_def str_nat.simps digit_char_def)
qed

end
